theory Spec2Isabelle
  imports Complex_Main "HOL-Library.Sublist"
begin

section \<open>Numbers and strings of the JavaScript sources\<close>

text \<open>
  The model covers \<^verbatim>\<open>src/server.js\<close> (the slicing backend) and the plugin code kept in
  \<^verbatim>\<open>src/teams/readme.md\<close> (\<^verbatim>\<open>suggestSlices\<close> and its helpers).

  Numbers: a JavaScript number that the code rounds before use is a \<open>real\<close>; a number that
  is an integer by construction (a result of \<^verbatim>\<open>Math.round\<close>, the logical frame size
  the plugin sends as \<^verbatim>\<open>Math.round(node.width)\<close>, a pixel size of the decoded image,
  a JPEG quality) is an \<open>int\<close>. \<^verbatim>\<open>NaN\<close>, the infinities and the rounding of
  IEEE doubles are outside the model.

  Strings: a \<open>string\<close> is read as a sequence of code units in the range 0..255.
  An absent or \<^verbatim>\<open>null\<close> value that the code reads through \<^verbatim>\<open>v || d\<close> is the
  falsy value of its type (\<open>''''\<close> or \<open>0\<close>), which \<^verbatim>\<open>||\<close> treats in the same way.
\<close>

definition round_js :: "real \<Rightarrow> int" where
  \<comment> \<open>\<^verbatim>\<open>Math.round\<close>: to the nearest integer, halves towards plus infinity.\<close>
  "round_js v = \<lfloor>v + 1 / 2\<rfloor>"

definition clamp :: "int \<Rightarrow> int \<Rightarrow> int \<Rightarrow> int" where
  "clamp n lo hi = max lo (min hi n)"

definition px :: "int \<Rightarrow> real \<Rightarrow> int" where
  "px val scale = max 0 (round_js (real_of_int val * scale))"

definition bytesToKb :: "nat \<Rightarrow> real" where
  "bytesToKb bytes = real_of_int (round_js ((real bytes / 1024) * 100)) / 100"

definition code :: "char \<Rightarrow> nat" where
  "code c = of_char c"

definition isWhiteSpace :: "char \<Rightarrow> bool" where
  \<comment> \<open>What \<^verbatim>\<open>String.prototype.trim\<close> strips, among the code units 0..255.\<close>
  "isWhiteSpace c = (code c \<in> {9, 10, 11, 12, 13, 32, 160})"

definition trim :: "string \<Rightarrow> string" where
  "trim s = rev (dropWhile isWhiteSpace (rev (dropWhile isWhiteSpace s)))"

definition toLowerChar :: "char \<Rightarrow> char" where
  \<comment> \<open>\<^verbatim>\<open>toLowerCase\<close> on one code unit: A-Z and the Latin-1 capitals.\<close>
  "toLowerChar c = (let n = code c in
     if (65 \<le> n \<and> n \<le> 90) \<or> (192 \<le> n \<and> n \<le> 222 \<and> n \<noteq> 215)
     then char_of (n + 32) else c)"

definition toUpperChar :: "char \<Rightarrow> char" where
  \<comment> \<open>\<^verbatim>\<open>toUpperCase\<close> on one code unit: a-z and the Latin-1 small letters whose
     capital is again below 256. It is applied to normalized identifiers only, which are ASCII.\<close>
  "toUpperChar c = (let n = code c in
     if (97 \<le> n \<and> n \<le> 122) \<or> (224 \<le> n \<and> n \<le> 254 \<and> n \<noteq> 247)
     then char_of (n - 32) else c)"

definition isDigit :: "char \<Rightarrow> bool" where
  "isDigit c = (48 \<le> code c \<and> code c \<le> 57)"

definition accountChar :: "char \<Rightarrow> bool" where
  \<comment> \<open>The class \<^verbatim>\<open>[a-z0-9_-]\<close>.\<close>
  "accountChar c = ((97 \<le> code c \<and> code c \<le> 122) \<or> isDigit c \<or> c = CHR ''_'' \<or> c = CHR ''-'')"

definition envKeyChar :: "char \<Rightarrow> bool" where
  \<comment> \<open>The class \<^verbatim>\<open>[A-Z0-9]\<close>.\<close>
  "envKeyChar c = ((65 \<le> code c \<and> code c \<le> 90) \<or> isDigit c)"

definition startsWithNoCase :: "string \<Rightarrow> string \<Rightarrow> bool" where
  "startsWithNoCase p s = (map toLowerChar (take (length p) s) = p)"

definition safeUrl :: "string \<Rightarrow> string" where
  \<comment> \<open>\<^verbatim>\<open>/^https?:\/\//i.test(String(url || '')) ? String(url) : ''\<close>\<close>
  "safeUrl url = (if startsWithNoCase ''http://'' url \<or> startsWithNoCase ''https://'' url
     then url else '''')"

fun digits :: "nat \<Rightarrow> string" where
  "digits n = (if n < 10 then [char_of (48 + n)] else digits (n div 10) @ [char_of (48 + n mod 10)])"

section \<open>Credential resolution\<close>

type_synonym env = "string \<rightharpoonup> string"
type_synonym error = string

definition truthy :: "env \<Rightarrow> string \<Rightarrow> string option" where
  \<comment> \<open>\<^verbatim>\<open>process.env[k]\<close> read as a condition: unset and the empty string are falsy.\<close>
  "truthy env k = (case env k of None \<Rightarrow> None | Some v \<Rightarrow> if v = [] then None else Some v)"

definition normalizeAccountId :: "string \<Rightarrow> string" where
  "normalizeAccountId raw = filter accountChar (map toLowerChar (trim raw))"

fun splitOn :: "char \<Rightarrow> string \<Rightarrow> string list" where
  "splitOn sep [] = [[]]"
| "splitOn sep (c # cs) =
     (if c = sep then [] # splitOn sep cs
      else (case splitOn sep cs of [] \<Rightarrow> [[c]] | w # ws \<Rightarrow> (c # w) # ws))"

definition uniq :: "'a list \<Rightarrow> 'a list" where
  \<comment> \<open>\<^verbatim>\<open>Array.from(new Set(xs))\<close>: the first occurrence of each value, in order.\<close>
  "uniq xs = foldl (\<lambda>seen x. if x \<in> set seen then seen else seen @ [x]) [] xs"

definition readConfiguredAccounts :: "env \<Rightarrow> string list" where
  "readConfiguredAccounts env =
     uniq (filter (\<lambda>v. v \<noteq> [])
       (map normalizeAccountId
         (splitOn CHR '','' (case env ''KLAVIYO_ACCOUNTS'' of None \<Rightarrow> [] | Some v \<Rightarrow> v))))"

definition accountEnvKey :: "string \<Rightarrow> string" where
  "accountEnvKey accountId =
     ''KLAVIYO_API_KEY_'' @
       map (\<lambda>c. if envKeyChar c then c else CHR ''_'') (map toUpperChar accountId)"

record credential =
  accountId :: string
  apiKey :: string
  source :: string

definition missingKeyError :: "string \<Rightarrow> string \<Rightarrow> error" where
  "missingKeyError acct envName =
     ''No API key configured for accountId '' @ [CHR 0x22] @ acct @ [CHR 0x22] @
     ''. Expected env: '' @ envName"

definition noKeyError :: error where
  "noKeyError =
     ''No Klaviyo API key found. Configure KLAVIYO_API_KEY or KLAVIYO_API_KEY_<ACCOUNT_ID>.''"

definition resolveApiKey :: "env \<Rightarrow> string \<Rightarrow> error + credential" where
  "resolveApiKey env accountIdRaw =
    (let acct = normalizeAccountId accountIdRaw;
         configured = readConfiguredAccounts env
     in if acct \<noteq> [] then
          (let envName = accountEnvKey acct in
           case truthy env envName of
             None \<Rightarrow> Inl (missingKeyError acct envName)
           | Some key \<Rightarrow> Inr \<lparr>accountId = acct, apiKey = key, source = envName\<rparr>)
        else
          (case truthy env ''KLAVIYO_API_KEY'' of
             Some k \<Rightarrow> Inr \<lparr>accountId = ''default'', apiKey = k, source = ''KLAVIYO_API_KEY''\<rparr>
           | None \<Rightarrow>
          (case truthy env ''KLAVIYO_PRIVATE_KEY'' of
             Some k \<Rightarrow> Inr \<lparr>accountId = ''default'', apiKey = k, source = ''KLAVIYO_PRIVATE_KEY''\<rparr>
           | None \<Rightarrow>
          (case configured of
             [] \<Rightarrow> Inl noKeyError
           | first # _ \<Rightarrow>
               (case truthy env (accountEnvKey first) of
                  Some key \<Rightarrow> Inr \<lparr>accountId = first, apiKey = key, source = accountEnvKey first\<rparr>
                | None \<Rightarrow> Inl noKeyError)))))"

section \<open>Slice geometry of the backend\<close>

record slice =
  sx :: int
  sy :: int
  width :: int
  height :: int
  url :: string
  label :: string
  alt :: string

text \<open>
  \<^verbatim>\<open>safeMax\<close> is a constant of the loop of \<^verbatim>\<open>buildAutoVerticalSlices\<close>; the
  model computes it from \<^verbatim>\<open>maxSliceHeight\<close> where the loop reads it, so that
  \<open>200 \<le> safeMax\<close> is in view of the termination proof.
\<close>

definition safeMaxOf :: "real \<Rightarrow> int" where
  \<comment> \<open>\<^verbatim>\<open>Math.max(200, Math.round(maxSliceHeight || 1200))\<close>\<close>
  "safeMaxOf maxSliceHeight = max 200 (round_js (if maxSliceHeight = 0 then 1200 else maxSliceHeight))"

function autoLoop :: "int \<Rightarrow> int \<Rightarrow> real \<Rightarrow> int \<Rightarrow> slice list" where
  "autoLoop logicalWidth bodyBottom maxSliceHeight y =
     (if y < bodyBottom
      then \<lparr>sx = 0, sy = y, width = logicalWidth,
            height = min (safeMaxOf maxSliceHeight) (bodyBottom - y),
            url = [], label = [], alt = []\<rparr>
           # autoLoop logicalWidth bodyBottom maxSliceHeight
               (y + min (safeMaxOf maxSliceHeight) (bodyBottom - y))
      else [])"
  by pat_completeness auto
termination
  by (relation "measure (\<lambda>(w, b, m, y). nat (b - y))") (auto simp: safeMaxOf_def)

declare autoLoop.simps [simp del]

definition buildAutoVerticalSlices :: "int \<Rightarrow> int \<Rightarrow> int \<Rightarrow> real \<Rightarrow> slice list" where
  "buildAutoVerticalSlices logicalWidth bodyTop bodyBottom maxSliceHeight =
     autoLoop logicalWidth bodyBottom maxSliceHeight bodyTop"

text \<open>
  A manual entry as the caller sends it: \<open>None\<close> is \<^verbatim>\<open>null\<close> or
  \<^verbatim>\<open>undefined\<close>, and \<open>rect = None\<close> is an entry without a \<^verbatim>\<open>rect\<close> field.
\<close>

record rawRect =
  rx :: real
  ry :: real
  rwidth :: real
  rheight :: real

record manualSlice =
  rect :: "rawRect option"
  murl :: string
  mlabel :: string
  malt :: string

fun normalizeManualRectSlices ::
  "int \<Rightarrow> int \<Rightarrow> int \<Rightarrow> int \<Rightarrow> manualSlice option list \<Rightarrow> slice list" where
  "normalizeManualRectSlices logicalWidth logicalHeight bodyTop bodyBottom [] = []"
| "normalizeManualRectSlices logicalWidth logicalHeight bodyTop bodyBottom (s # list) =
     (let rects = normalizeManualRectSlices logicalWidth logicalHeight bodyTop bodyBottom list in
      case s of None \<Rightarrow> rects
      | Some m \<Rightarrow>
     (case rect m of None \<Rightarrow> rects
      | Some r \<Rightarrow>
        (let x = clamp (round_js (rx r)) 0 (max 0 (logicalWidth - 1));
             y = clamp (round_js (ry r)) bodyTop (max bodyTop (bodyBottom - 1));
             maxW = logicalWidth - x;
             maxH = bodyBottom - y;
             w = clamp (round_js (rwidth r)) 1 (max 1 maxW);
             h = clamp (round_js (rheight r)) 1 (max 1 maxH)
         in if w < 2 \<or> h < 2 then rects
            else \<lparr>sx = x, sy = y, width = w, height = h, url = safeUrl (murl m),
                  label = mlabel m, alt = malt m\<rparr> # rects)))"

definition toManual :: "slice \<Rightarrow> manualSlice option" where
  \<comment> \<open>A normalized slice sent again as a manual entry: its geometry under \<^verbatim>\<open>rect\<close>.\<close>
  "toManual s =
     Some \<lparr>rect = Some \<lparr>rx = real_of_int (sx s), ry = real_of_int (sy s),
                          rwidth = real_of_int (width s), rheight = real_of_int (height s)\<rparr>,
           murl = url s, mlabel = label s, malt = alt s\<rparr>"

record extractRect =
  e_left :: int
  e_top :: int
  e_width :: int
  e_height :: int

definition clampExtractRect :: "slice \<Rightarrow> real \<Rightarrow> int \<Rightarrow> int \<Rightarrow> extractRect" where
  "clampExtractRect r pixelRatio sourceWidth sourceHeight =
     (let left = clamp (px (sx r) pixelRatio) 0 (max 0 (sourceWidth - 1));
          top = clamp (px (sy r) pixelRatio) 0 (max 0 (sourceHeight - 1));
          desiredW = max 1 (px (width r) pixelRatio);
          desiredH = max 1 (px (height r) pixelRatio);
          w = clamp desiredW 1 (max 1 (sourceWidth - left));
          h = clamp desiredH 1 (max 1 (sourceHeight - top))
      in \<lparr>e_left = left, e_top = top, e_width = w, e_height = h\<rparr>)"

section \<open>The auto-slice suggester of the plugin\<close>

record bounds =
  bnd_x :: real
  bnd_y :: real
  bnd_width :: real
  bnd_height :: real

record child =
  visible :: bool
  childBounds :: "bounds option"

text \<open>
  A frame node: its \<^verbatim>\<open>absoluteBoundingBox\<close> (\<open>None\<close> when missing), its
  \<^verbatim>\<open>width\<close> and \<^verbatim>\<open>height\<close>, and its \<^verbatim>\<open>children\<close> array (\<open>None\<close> when
  the node has none; a \<open>None\<close> element is a \<^verbatim>\<open>null\<close> child). An option of
  \<^verbatim>\<open>opts\<close> is \<open>None\<close> when \<^verbatim>\<open>Number(..)\<close> of it is not finite.
\<close>

record frameNode =
  frameBounds :: "bounds option"
  nodeWidth :: real
  nodeHeight :: real
  children :: "child option list option"

record opts =
  optHeaderHeight :: "real option"
  optFooterHeight :: "real option"
  optMaxSliceHeight :: "real option"

record interval =
  istart :: int
  iend :: int

record rect =
  rect_x :: int
  rect_y :: int
  rect_width :: int
  rect_height :: int

record suggestion =
  srect :: rect
  surl :: string
  salt :: string
  slabel :: string

definition toInt :: "real option \<Rightarrow> int \<Rightarrow> int" where
  "toInt n fallback = (case n of Some parsed \<Rightarrow> round_js parsed | None \<Rightarrow> fallback)"

text \<open>
  \<^verbatim>\<open>mergeIntervals\<close> keeps the last merged interval in \<^verbatim>\<open>prev\<close> and either
  widens it or pushes the current one; \<open>mergeFrom\<close> is that loop with \<open>prev\<close> as an
  argument. \<^verbatim>\<open>Array.prototype.sort\<close> is stable, as \<open>sort_key\<close> is.
\<close>

fun mergeFrom :: "int \<Rightarrow> interval \<Rightarrow> interval list \<Rightarrow> interval list" where
  "mergeFrom joinGap prev [] = [prev]"
| "mergeFrom joinGap prev (cur # rest) =
     (if istart cur \<le> iend prev + joinGap
      then mergeFrom joinGap (prev\<lparr>iend := max (iend prev) (iend cur)\<rparr>) rest
      else prev # mergeFrom joinGap cur rest)"

definition mergeIntervals :: "interval list \<Rightarrow> int \<Rightarrow> interval list" where
  "mergeIntervals intervals joinGap =
     (case sort_key istart intervals of
        [] \<Rightarrow> []
      | first # rest \<Rightarrow> mergeFrom joinGap first rest)"

text \<open>
  The tiling loop of \<^verbatim>\<open>splitByMaxHeight\<close>, which the fallback of \<^verbatim>\<open>suggestSlices\<close>
  repeats:
  \<^verbatim>\<open>while (y < bottom) { h = Math.min(maxH, bottom - y); out.push(..y, h..); y += h; }\<close>.
  It does not return when \<open>maxH \<le> 0\<close>, so it is a partial function; \<open>None\<close> is
  "does not return". It yields the pairs \<open>(y, h)\<close> pushed, in order.
\<close>

partial_function (option) tileLoop :: "int \<Rightarrow> int \<Rightarrow> int \<Rightarrow> (int \<times> int) list \<Rightarrow> (int \<times> int) list option" where
  "tileLoop maxH bottom y out =
     (if y < bottom
      then tileLoop maxH bottom (y + min maxH (bottom - y)) (out @ [(y, min maxH (bottom - y))])
      else Some out)"

definition splitByMaxHeight :: "interval \<Rightarrow> int \<Rightarrow> interval list option" where
  "splitByMaxHeight iv maxH =
     map_option (map (\<lambda>(y, h). \<lparr>istart = y, iend = y + h\<rparr>))
       (tileLoop maxH (iend iv) (istart iv) [])"

definition childInterval ::
  "real \<Rightarrow> int \<Rightarrow> int \<Rightarrow> int \<Rightarrow> int \<Rightarrow> child option \<Rightarrow> interval option" where
  \<comment> \<open>The body of the loop over the children; \<open>None\<close> is \<^verbatim>\<open>continue\<close>.\<close>
  "childInterval frameY minWidth minSectionHeight bodyTop bodyBottom c =
     (case c of None \<Rightarrow> None
      | Some ch \<Rightarrow>
        if \<not> visible ch then None
        else (case childBounds ch of None \<Rightarrow> None
        | Some b \<Rightarrow>
          (let relY = round_js (bnd_y b - frameY);
               relH = round_js (bnd_height b);
               relW = round_js (bnd_width b)
           in if relW < minWidth then None
              else if relH < minSectionHeight then None
              else (let start = clamp relY bodyTop bodyBottom;
                        end' = clamp (relY + relH) bodyTop bodyBottom
                    in if end' - start < minSectionHeight then None
                       else Some \<lparr>istart = start, iend = end'\<rparr>))))"

definition toSuggestion :: "int \<Rightarrow> int \<Rightarrow> int \<Rightarrow> suggestion" where
  "toSuggestion frameWidth y h =
     \<lparr>srect = \<lparr>rect_x = 0, rect_y = y, rect_width = frameWidth, rect_height = h\<rparr>,
      surl = [], salt = [], slabel = []\<rparr>"

text \<open>
  The local variables \<^verbatim>\<open>bodyTop\<close>, \<^verbatim>\<open>bodyBottom\<close> and \<^verbatim>\<open>maxSliceHeight\<close> of
  \<^verbatim>\<open>suggestSlices\<close>, as functions of its arguments.
\<close>

definition suggestBodyTop :: "frameNode \<Rightarrow> opts \<Rightarrow> int" where
  "suggestBodyTop node opt = clamp (toInt (optHeaderHeight opt) 0) 0 (round_js (nodeHeight node))"

definition suggestBodyBottom :: "frameNode \<Rightarrow> opts \<Rightarrow> int" where
  "suggestBodyBottom node opt =
     round_js (nodeHeight node) - clamp (toInt (optFooterHeight opt) 0) 0 (round_js (nodeHeight node))"

definition suggestMaxHeight :: "opts \<Rightarrow> int" where
  "suggestMaxHeight opt = max 200 (toInt (optMaxSliceHeight opt) 1200)"

definition collectIntervals :: "frameNode \<Rightarrow> real \<Rightarrow> int \<Rightarrow> int \<Rightarrow> int \<Rightarrow> int \<Rightarrow> interval list" where
  \<comment> \<open>Lines 142, 143 and 146 to 172: the spans of the qualifying children, else the body.\<close>
  "collectIntervals node frameY frameWidth frameHeight bodyTop bodyBottom =
     (let minSectionHeight = max 40 (round_js (real_of_int frameHeight * (3 / 100)));
          minWidth = max 120 (round_js (real_of_int frameWidth * (55 / 100)));
          found = (case children node of None \<Rightarrow> []
                   | Some cs \<Rightarrow>
                       List.map_filter
                         (childInterval frameY minWidth minSectionHeight bodyTop bodyBottom) cs)
      in if found = [] then [\<lparr>istart = bodyTop, iend = bodyBottom\<rparr>] else found)"

definition cutSlices :: "int \<Rightarrow> int \<Rightarrow> int \<Rightarrow> int \<Rightarrow> int \<Rightarrow> interval list \<Rightarrow> suggestion list option" where
  \<comment> \<open>Lines 174 to 205: merge, split, drop the chunks under 8 pixels, else tile the body.\<close>
  "cutSlices frameWidth maxH bodyTop bodyBottom joinGap intervals =
     (case those (map (\<lambda>m. splitByMaxHeight m maxH) (mergeIntervals intervals joinGap)) of
        None \<Rightarrow> None
      | Some chunks \<Rightarrow>
         (let found =
                map (\<lambda>c. toSuggestion frameWidth (istart c) (iend c - istart c))
                  (filter (\<lambda>c. \<not> iend c - istart c < 8) (concat chunks))
          in if found = []
             then map_option (map (\<lambda>(y, h). toSuggestion frameWidth y h))
                    (tileLoop maxH bodyBottom bodyTop [])
             else Some found))"

definition suggestSlices :: "frameNode \<Rightarrow> opts \<Rightarrow> suggestion list option" where
  "suggestSlices node opt =
    (case frameBounds node of None \<Rightarrow> Some []
     | Some fb \<Rightarrow>
      (let frameWidth = round_js (nodeWidth node);
           frameHeight = round_js (nodeHeight node);
           maxH = suggestMaxHeight opt;
           bodyTop = suggestBodyTop node opt;
           bodyBottom = suggestBodyBottom node opt
       in if bodyBottom \<le> bodyTop then Some []
          else cutSlices frameWidth maxH bodyTop bodyBottom
                 (max 12 (round_js (real_of_int frameHeight * (1 / 100))))
                 (collectIntervals node (bnd_y fb) frameWidth frameHeight bodyTop bodyBottom)))"

text \<open>
  Which pixel rows a list of vertical spans \<open>(y, h)\<close> covers, and how often.
\<close>

definition coverCount :: "(int \<times> int) list \<Rightarrow> int \<Rightarrow> nat" where
  "coverCount spans row = length (filter (\<lambda>(y, h). y \<le> row \<and> row < y + h) spans)"

definition sliceSpan :: "slice \<Rightarrow> int \<times> int" where
  "sliceSpan s = (sy s, height s)"

definition suggestionSpan :: "suggestion \<Rightarrow> int \<times> int" where
  "suggestionSpan s = (rect_y (srect s), rect_height (srect s))"

section \<open>Adaptive compression\<close>

type_synonym buffer = "nat list"

text \<open>
  The constants the backend reads from the environment when it starts. A JPEG quality is
  an integer for \<^verbatim>\<open>sharp\<close>, which rejects anything else.
\<close>

record config =
  defaultJpegQuality :: int
  minJpegQuality :: int
  targetSliceKb :: int

text \<open>
  The services the pipeline calls. The \<^verbatim>\<open>sharp\<close> operations are functions of their
  input that return a value or throw (\<open>Inl\<close> the message); \<^verbatim>\<open>metadata\<close> gives
  \<^verbatim>\<open>width || 0\<close> and \<^verbatim>\<open>height || 0\<close>. The upload is a call to the remote image
  API: it changes the state \<open>'w\<close> of the world and returns the image URL or throws.
  The source image is passed as the caller sent it (base64), an image to upload as its bytes.
\<close>

record uploadReq =
  u_apiKey :: string
  u_name :: string
  u_image :: buffer
  u_mimeType :: string

record 'w services =
  metadata :: "string \<Rightarrow> error + (int \<times> int)"
  extractRegion :: "string \<Rightarrow> extractRect \<Rightarrow> error + (buffer \<times> bool)"
  png :: "buffer \<Rightarrow> error + buffer"
  jpeg :: "buffer \<Rightarrow> int \<Rightarrow> error + buffer"
  uploadImageToKlaviyo :: "uploadReq \<Rightarrow> 'w \<Rightarrow> (error + string) \<times> 'w"

record compressed =
  buf :: buffer
  mime :: string
  quality :: "int option"
  c_originalKb :: real
  c_compressedKb :: real

text \<open>
  The quality search of \<^verbatim>\<open>compressSlice\<close>. \<open>enc\<close> is the JPEG encoder on the
  slice; the last argument counts the encoder's calls so far and is returned with the
  result (it is not a value of the program).
\<close>

function jpegSearch ::
  "(int \<Rightarrow> error + buffer) \<Rightarrow> int \<Rightarrow> int \<Rightarrow> int \<Rightarrow> buffer \<Rightarrow> nat \<Rightarrow> nat \<times> (error + int \<times> buffer)" where
  "jpegSearch enc targetBytes minQ q best n =
     (if int (length best) > targetBytes \<and> q > minQ
      then (case enc (q - 5) of
              Inl e \<Rightarrow> (Suc n, Inl e)
            | Inr b \<Rightarrow> jpegSearch enc targetBytes minQ (q - 5) b (Suc n))
      else (n, Inr (q, best)))"
  by pat_completeness auto
termination
  by (relation "measure (\<lambda>(enc, t, minQ, q, best, n). nat (q - minQ))") auto

declare jpegSearch.simps [simp del]

definition compressCounted ::
  "config \<Rightarrow> 'w services \<Rightarrow> buffer \<Rightarrow> bool \<Rightarrow> nat \<times> (error + compressed)" where
  "compressCounted cfg svc sliceBuffer hasAlpha =
    (let originalBytes = length sliceBuffer in
     if hasAlpha then
       (case png svc sliceBuffer of
          Inl e \<Rightarrow> (1, Inl e)
        | Inr p \<Rightarrow> (1, Inr \<lparr>buf = p, mime = ''image/png'', quality = None,
                             c_originalKb = bytesToKb originalBytes,
                             c_compressedKb = bytesToKb (length p)\<rparr>))
     else
       (case jpeg svc sliceBuffer (defaultJpegQuality cfg) of
          Inl e \<Rightarrow> (1, Inl e)
        | Inr first \<Rightarrow>
           (case jpegSearch (jpeg svc sliceBuffer) (targetSliceKb cfg * 1024)
                   (minJpegQuality cfg) (defaultJpegQuality cfg) first 1 of
              (n, Inl e) \<Rightarrow> (n, Inl e)
            | (n, Inr (q, best)) \<Rightarrow>
                (n, Inr \<lparr>buf = best, mime = ''image/jpeg'', quality = Some q,
                         c_originalKb = bytesToKb originalBytes,
                         c_compressedKb = bytesToKb (length best)\<rparr>))))"

definition compressSlice :: "config \<Rightarrow> 'w services \<Rightarrow> buffer \<Rightarrow> bool \<Rightarrow> error + compressed" where
  "compressSlice cfg svc sliceBuffer hasAlpha = snd (compressCounted cfg svc sliceBuffer hasAlpha)"

definition encodes :: "config \<Rightarrow> 'w services \<Rightarrow> buffer \<Rightarrow> bool \<Rightarrow> nat" where
  \<comment> \<open>How many times \<^verbatim>\<open>compressSlice\<close> runs an encoder.\<close>
  "encodes cfg svc sliceBuffer hasAlpha = fst (compressCounted cfg svc sliceBuffer hasAlpha)"

section \<open>The slice pipeline\<close>

record sliceResult = slice +
  imageUrl :: string
  mimeType :: string
  jpegQuality :: "int option"
  originalKb :: real
  compressedKb :: real

text \<open>The argument object of \<^verbatim>\<open>buildAndUploadSlices\<close>.\<close>

record sliceJob =
  jobApiKey :: string
  batchName :: string
  sourceBase64 :: string
  logicalWidth :: int
  logicalHeight :: int
  pixelRatio :: real
  headerHeight :: real
  footerHeight :: real
  maxSliceHeight :: real
  manualSlices :: "manualSlice option list"

record built =
  slices :: "sliceResult list"
  bodyTop :: int
  bodyBottom :: int

definition unreadableError :: error where
  "unreadableError = ''Could not read exported image dimensions.''"

definition emptyBodyError :: error where
  "emptyBodyError = ''Invalid header/footer crop. Body region is empty.''"

definition noManualError :: error where
  "noManualError = ''Manual slices provided but no valid rectangles were generated.''"

definition bodyTopOf :: "sliceJob \<Rightarrow> int" where
  "bodyTopOf job = clamp (round_js (headerHeight job)) 0 (logicalHeight job)"

definition bodyBottomOf :: "sliceJob \<Rightarrow> int" where
  "bodyBottomOf job = logicalHeight job - clamp (round_js (footerHeight job)) 0 (logicalHeight job)"

definition chooseSlices :: "sliceJob \<Rightarrow> error + slice list" where
  \<comment> \<open>Lines 234 to 240: the manual rectangles when there are any, else the automatic ones.\<close>
  "chooseSlices job =
     (if manualSlices job \<noteq> [] then
        (let chosen = normalizeManualRectSlices (logicalWidth job) (logicalHeight job)
                        (bodyTopOf job) (bodyBottomOf job) (manualSlices job)
         in if chosen = [] then Inl noManualError else Inr chosen)
      else Inr (buildAutoVerticalSlices (logicalWidth job) (bodyTopOf job) (bodyBottomOf job)
                  (maxSliceHeight job)))"

text \<open>
  The body of the loop over the slices, for the slice \<open>s\<close> at index \<open>i\<close>: extraction,
  compression, upload, then the fields of the result. A throw of any step leaves the
  loop with that error, which \<open>sliceLoop\<close> passes on.
\<close>

definition sliceStep ::
  "config \<Rightarrow> 'w services \<Rightarrow> sliceJob \<Rightarrow> int \<Rightarrow> int \<Rightarrow> nat \<Rightarrow> slice \<Rightarrow> 'w
     \<Rightarrow> (error + sliceResult) \<times> 'w" where
  "sliceStep cfg svc job sourceWidth sourceHeight i s w =
     (case extractRegion svc (sourceBase64 job)
             (clampExtractRect s (pixelRatio job) sourceWidth sourceHeight) of
        Inl e \<Rightarrow> (Inl e, w)
      | Inr (extracted, hasAlpha) \<Rightarrow>
     (case compressSlice cfg svc extracted hasAlpha of
        Inl e \<Rightarrow> (Inl e, w)
      | Inr c \<Rightarrow>
     (case uploadImageToKlaviyo svc
             \<lparr>u_apiKey = jobApiKey job,
              u_name = batchName job @ ''-slice-'' @ digits (i + 1),
              u_image = buf c, u_mimeType = mime c\<rparr> w of
        (Inl e, w') \<Rightarrow> (Inl e, w')
      | (Inr u, w') \<Rightarrow>
          (Inr (slice.extend s
                  \<lparr>imageUrl = u, mimeType = mime c, jpegQuality = quality c,
                   originalKb = c_originalKb c, compressedKb = c_compressedKb c\<rparr>),
           w'))))"

fun sliceLoop ::
  "config \<Rightarrow> 'w services \<Rightarrow> sliceJob \<Rightarrow> int \<Rightarrow> int \<Rightarrow> nat \<Rightarrow> slice list \<Rightarrow> 'w
     \<Rightarrow> (error + sliceResult list) \<times> 'w" where
  "sliceLoop cfg svc job sourceWidth sourceHeight i [] w = (Inr [], w)"
| "sliceLoop cfg svc job sourceWidth sourceHeight i (s # rest) w =
     (case sliceStep cfg svc job sourceWidth sourceHeight i s w of
        (Inl e, w') \<Rightarrow> (Inl e, w')
      | (Inr r, w') \<Rightarrow>
     (case sliceLoop cfg svc job sourceWidth sourceHeight (i + 1) rest w' of
        (Inl e, w'') \<Rightarrow> (Inl e, w'')
      | (Inr done, w'') \<Rightarrow> (Inr (r # done), w'')))"

definition buildAndUploadSlices ::
  "config \<Rightarrow> 'w services \<Rightarrow> sliceJob \<Rightarrow> 'w \<Rightarrow> (error + built) \<times> 'w" where
  "buildAndUploadSlices cfg svc job w =
     (case metadata svc (sourceBase64 job) of
        Inl e \<Rightarrow> (Inl e, w)
      | Inr (sourceWidth, sourceHeight) \<Rightarrow>
          if sourceWidth = 0 \<or> sourceHeight = 0 then (Inl unreadableError, w)
          else if bodyBottomOf job \<le> bodyTopOf job then (Inl emptyBodyError, w)
          else (case chooseSlices job of
                  Inl e \<Rightarrow> (Inl e, w)
                | Inr chosen \<Rightarrow>
                   (case sliceLoop cfg svc job sourceWidth sourceHeight 0 chosen w of
                      (Inl e, w') \<Rightarrow> (Inl e, w')
                    | (Inr done, w') \<Rightarrow>
                        (Inr \<lparr>slices = done, bodyTop = bodyTopOf job,
                              bodyBottom = bodyBottomOf job\<rparr>, w'))))"

section \<open>The push request\<close>

record pushRequest =
  req_batchName :: string
  req_imageBase64 :: string
  req_logicalWidth :: int
  req_logicalHeight :: int
  req_pixelRatio :: real
  req_headerHeight :: real
  req_footerHeight :: real
  req_maxSliceHeight :: real
  req_manualSlices :: "manualSlice option list"
  req_frameName :: string
  req_accountId :: string

text \<open>
  What the handler of \<^verbatim>\<open>POST /api/push\<close> answers: a status with an error message, or
  the batch (account, batch name, frame name or \<^verbatim>\<open>null\<close>, slice count, manual mode,
  target size and the slices, whose \<^verbatim>\<open>index\<close> is their position from 1).
\<close>

datatype response =
  JsonError nat string
| JsonOk string string "string option" nat bool int "sliceResult list"

definition missingFieldsError :: error where
  "missingFieldsError = ''Missing required fields: batchName/imageBase64/logicalWidth/logicalHeight''"

definition errorText :: "error \<Rightarrow> string" where
  \<comment> \<open>\<^verbatim>\<open>String(error?.message || error)\<close> of an \<^verbatim>\<open>Error\<close> with that message.\<close>
  "errorText e = (if e = [] then ''Error'' else e)"

definition firstTruthy :: "string \<Rightarrow> string \<Rightarrow> string" where
  "firstTruthy a b = (if a \<noteq> [] then a else b)"

definition pushJob :: "credential \<Rightarrow> pushRequest \<Rightarrow> sliceJob" where
  \<comment> \<open>The argument the handler passes to \<^verbatim>\<open>buildAndUploadSlices\<close>.\<close>
  "pushJob resolved req =
     \<lparr>jobApiKey = apiKey resolved,
      batchName = firstTruthy (req_batchName req) (firstTruthy (req_frameName req) ''Figma Export''),
      sourceBase64 = req_imageBase64 req,
      logicalWidth = req_logicalWidth req,
      logicalHeight = req_logicalHeight req,
      pixelRatio = (if req_pixelRatio req = 0 then 1 else req_pixelRatio req),
      headerHeight = req_headerHeight req,
      footerHeight = req_footerHeight req,
      maxSliceHeight = (if req_maxSliceHeight req = 0 then 1200 else req_maxSliceHeight req),
      manualSlices = req_manualSlices req\<rparr>"

definition push :: "config \<Rightarrow> env \<Rightarrow> 'w services \<Rightarrow> pushRequest \<Rightarrow> 'w \<Rightarrow> response \<times> 'w" where
  "push cfg env svc req w =
     (case resolveApiKey env (req_accountId req) of
        Inl e \<Rightarrow> (JsonError 500 e, w)
      | Inr resolved \<Rightarrow>
         (let job = pushJob resolved req
          in if batchName job = [] \<or> req_imageBase64 req = []
                \<or> req_logicalWidth req = 0 \<or> req_logicalHeight req = 0
             then (JsonError 400 missingFieldsError, w)
             else
              (case buildAndUploadSlices cfg svc job w of
                 (Inl e, w') \<Rightarrow> (JsonError 500 (errorText e), w')
               | (Inr b, w') \<Rightarrow>
                   (JsonOk (accountId resolved) (batchName job)
                      (if req_frameName req = [] then None else Some (req_frameName req))
                      (length (slices b)) (req_manualSlices req \<noteq> [])
                      (targetSliceKb cfg) (slices b), w'))))"

section \<open>Notions the properties are stated with\<close>

definition hasRect :: "manualSlice option \<Rightarrow> bool" where
  \<comment> \<open>An entry that is an object with a \<^verbatim>\<open>rect\<close> field.\<close>
  "hasRect s = (case s of None \<Rightarrow> False | Some m \<Rightarrow> rect m \<noteq> None)"

text \<open>
  For a positive \<open>maxH\<close> the tiling loop is this total function; the proofs go through it.
\<close>

function tiles :: "int \<Rightarrow> int \<Rightarrow> int \<Rightarrow> (int \<times> int) list" where
  "tiles maxH bottom y =
     (if y < bottom \<and> 0 < maxH
      then (y, min maxH (bottom - y)) # tiles maxH bottom (y + min maxH (bottom - y))
      else [])"
  by pat_completeness auto
termination
  by (relation "measure (\<lambda>(m, b, y). nat (b - y))") auto

declare tiles.simps [simp del]

text \<open>
  Spans \<open>(y, h)\<close> that follow one another from \<open>lo\<close> on without overlapping, each of
  positive height, and all below \<open>hi\<close>.
\<close>

fun stacked :: "int \<Rightarrow> int \<Rightarrow> (int \<times> int) list \<Rightarrow> bool" where
  "stacked lo hi [] = True"
| "stacked lo hi ((y, h) # rest) = (lo \<le> y \<and> 0 < h \<and> y + h \<le> hi \<and> stacked (y + h) hi rest)"

text \<open>
  Intervals that follow one another from \<open>lo\<close> on without overlapping, all below \<open>hi\<close>.
\<close>

fun chained :: "int \<Rightarrow> int \<Rightarrow> interval list \<Rightarrow> bool" where
  "chained lo hi [] = True"
| "chained lo hi (m # ms) = (lo \<le> istart m \<and> istart m \<le> iend m \<and> iend m \<le> hi \<and> chained (iend m) hi ms)"

text \<open>
  What \<^verbatim>\<open>suggestSlices\<close> works on, as functions of its arguments: its join gap, the
  span of a child that qualifies (\<open>None\<close> for a child that is skipped), its
  \<^verbatim>\<open>intervals\<close> before the merge and its \<^verbatim>\<open>merged\<close> intervals.
\<close>

definition suggestJoinGap :: "frameNode \<Rightarrow> int" where
  "suggestJoinGap node = max 12 (round_js (real_of_int (round_js (nodeHeight node)) * (1 / 100)))"

definition suggestChildSpan :: "frameNode \<Rightarrow> opts \<Rightarrow> child option \<Rightarrow> interval option" where
  "suggestChildSpan node opt c =
     (case frameBounds node of None \<Rightarrow> None
      | Some fb \<Rightarrow>
          childInterval (bnd_y fb)
            (max 120 (round_js (real_of_int (round_js (nodeWidth node)) * (55 / 100))))
            (max 40 (round_js (real_of_int (round_js (nodeHeight node)) * (3 / 100))))
            (suggestBodyTop node opt) (suggestBodyBottom node opt) c)"

definition suggestIntervals :: "frameNode \<Rightarrow> opts \<Rightarrow> interval list" where
  "suggestIntervals node opt =
     (case frameBounds node of None \<Rightarrow> []
      | Some fb \<Rightarrow>
          collectIntervals node (bnd_y fb) (round_js (nodeWidth node)) (round_js (nodeHeight node))
            (suggestBodyTop node opt) (suggestBodyBottom node opt))"

definition suggestMerged :: "frameNode \<Rightarrow> opts \<Rightarrow> interval list" where
  "suggestMerged node opt = mergeIntervals (suggestIntervals node opt) (suggestJoinGap node)"

text \<open>
  The spans \<open>(y, h)\<close> of the chunks that \<^verbatim>\<open>suggestSlices\<close> keeps: the chunks of the
  merged intervals, for a positive maximum height, without those under 8 pixels.
\<close>

definition keptChunks :: "int \<Rightarrow> interval list \<Rightarrow> (int \<times> int) list" where
  "keptChunks maxH merged =
     filter (\<lambda>(y, h). \<not> h < 8) (concat (map (\<lambda>m. tiles maxH (iend m) (istart m)) merged))"

section \<open>Example inputs\<close>

definition demoConfig :: config where
  "demoConfig = \<lparr>defaultJpegQuality = 80, minJpegQuality = 60, targetSliceKb = 250\<rparr>"

text \<open>
  Services whose second upload of the batch \<^verbatim>\<open>b\<close> fails; the state of the world is
  the number of upload requests the remote API has received.
\<close>

definition demoServices :: "nat services" where
  "demoServices =
     \<lparr>metadata = (\<lambda>src. Inr (2000, 4000)),
      extractRegion = (\<lambda>src r. Inr ([7, 8, 9], True)),
      png = (\<lambda>b. Inr [5]),
      jpeg = (\<lambda>b q. Inr [5]),
      uploadImageToKlaviyo =
        (\<lambda>r n. (if u_name r = ''b-slice-2'' then Inl ''Image upload failed: HTTP 500''
                  else Inr ''https://img.example/1'', Suc n))\<rparr>"

definition demoJob :: sliceJob where
  "demoJob =
     \<lparr>jobApiKey = ''pk_1'', batchName = ''b'', sourceBase64 = ''AAAA'',
      logicalWidth = 1000, logicalHeight = 2000, pixelRatio = 2,
      headerHeight = 100, footerHeight = 100, maxSliceHeight = 1200, manualSlices = []\<rparr>"

definition demoSlice :: "int \<Rightarrow> int \<Rightarrow> slice" where
  "demoSlice y h = \<lparr>sx = 0, sy = y, width = 1000, height = h, url = [], label = [], alt = []\<rparr>"

text \<open>
  A frame of 1000 by 2000 with one child, 1000 wide, over the rows 0 to 500.
\<close>

definition demoFrame :: frameNode where
  "demoFrame =
     \<lparr>frameBounds = Some \<lparr>bnd_x = 0, bnd_y = 0, bnd_width = 1000, bnd_height = 2000\<rparr>,
      nodeWidth = 1000, nodeHeight = 2000,
      children = Some [Some \<lparr>visible = True,
        childBounds = Some \<lparr>bnd_x = 0, bnd_y = 0, bnd_width = 1000, bnd_height = 500\<rparr>\<rparr>]\<rparr>"

definition demoOpts :: opts where
  "demoOpts = \<lparr>optHeaderHeight = None, optFooterHeight = None, optMaxSliceHeight = None\<rparr>"

text \<open>
  A push request for the batch \<^verbatim>\<open>b\<close> of that frame, with no account identifier and no
  manual slices.
\<close>

definition demoRequest :: pushRequest where
  "demoRequest =
     \<lparr>req_batchName = ''b'', req_imageBase64 = ''AAAA'',
      req_logicalWidth = 1000, req_logicalHeight = 2000, req_pixelRatio = 2,
      req_headerHeight = 100, req_footerHeight = 100, req_maxSliceHeight = 1200,
      req_manualSlices = [], req_frameName = [], req_accountId = []\<rparr>"

section \<open>The tiling loop and the suggested rectangles\<close>

lemma tileLoop_tiles:
  "0 < maxH \<Longrightarrow> tileLoop maxH bottom y out = Some (out @ tiles maxH bottom y)"
proof (induction maxH bottom y arbitrary: out rule: tiles.induct)
  case (1 maxH bottom y)
  show ?case
  proof (cases "y < bottom")
    case True
    with "1.prems" "1.IH" [of "out @ [(y, min maxH (bottom - y))]"] show ?thesis
      by (subst tileLoop.simps, subst tiles.simps) simp
  next
    case False
    then show ?thesis
      by (subst tileLoop.simps, subst tiles.simps) simp
  qed
qed

lemma tiles_stacked: "stacked y bottom (tiles maxH bottom y)"
proof (induction maxH bottom y rule: tiles.induct)
  case (1 maxH bottom y)
  show ?case
  proof (cases "y < bottom \<and> 0 < maxH")
    case True
    with "1.IH" show ?thesis
      by (subst tiles.simps) auto
  next
    case False
    then show ?thesis
      by (subst tiles.simps) auto
  qed
qed

lemma tiles_height: "(y', h) \<in> set (tiles maxH bottom y) \<Longrightarrow> 0 < h \<and> h \<le> maxH"
proof (induction maxH bottom y rule: tiles.induct)
  case (1 maxH bottom y)
  show ?case
  proof (cases "y < bottom \<and> 0 < maxH")
    case True
    with "1.IH" "1.prems" show ?thesis
      by (subst (asm) tiles.simps) auto
  next
    case False
    with "1.prems" show ?thesis
      by (subst (asm) tiles.simps) auto
  qed
qed

lemma tiles_nonempty: "y < bottom \<Longrightarrow> 0 < maxH \<Longrightarrow> tiles maxH bottom y \<noteq> []"
  by (subst tiles.simps) simp

lemma tiles_butlast:
  "(y', h) \<in> set (butlast (tiles maxH bottom y)) \<Longrightarrow> h = maxH"
proof (induction maxH bottom y rule: tiles.induct)
  case (1 maxH bottom y)
  show ?case
  proof (cases "y < bottom \<and> 0 < maxH")
    case True
    note t = this
    have unf: "tiles maxH bottom y =
        (y, min maxH (bottom - y)) # tiles maxH bottom (y + min maxH (bottom - y))"
      using True by (subst tiles.simps) simp
    show ?thesis
    proof (cases "tiles maxH bottom (y + min maxH (bottom - y)) = []")
      case True
      with "1.prems" show ?thesis
        unfolding unf by simp
    next
      case False
      then have more: "y + min maxH (bottom - y) < bottom"
        by (subst (asm) tiles.simps) (auto split: if_splits)
      from False "1.prems" have "(y', h) = (y, min maxH (bottom - y))
          \<or> (y', h) \<in> set (butlast (tiles maxH bottom (y + min maxH (bottom - y))))"
        unfolding unf by auto
      with "1.IH" [OF t] more show ?thesis
        by auto
    qed
  next
    case False
    with "1.prems" show ?thesis
      by (subst (asm) tiles.simps) auto
  qed
qed

lemma coverCount_Cons:
  "coverCount ((y, h) # rest) row = (if y \<le> row \<and> row < y + h then 1 else 0) + coverCount rest row"
  by (simp add: coverCount_def)

lemma tiles_cover:
  "0 < maxH \<Longrightarrow> coverCount (tiles maxH bottom y) row = (if y \<le> row \<and> row < bottom then 1 else 0)"
proof (induction maxH bottom y rule: tiles.induct)
  case (1 maxH bottom y)
  show ?case
  proof (cases "y < bottom")
    case True
    have unf: "tiles maxH bottom y =
        (y, min maxH (bottom - y)) # tiles maxH bottom (y + min maxH (bottom - y))"
      using True "1.prems" by (subst tiles.simps) simp
    from "1.IH" True "1.prems"
    have ih: "coverCount (tiles maxH bottom (y + min maxH (bottom - y))) row =
        (if y + min maxH (bottom - y) \<le> row \<and> row < bottom then 1 else 0)"
      by simp
    show ?thesis
      unfolding unf coverCount_Cons ih using True "1.prems" by auto
  next
    case False
    then show ?thesis
      by (subst tiles.simps) (simp add: coverCount_def)
  qed
qed

lemma stacked_mono: "stacked lo hi xs \<Longrightarrow> lo' \<le> lo \<Longrightarrow> hi \<le> hi' \<Longrightarrow> stacked lo' hi' xs"
  by (induction lo hi xs arbitrary: lo' rule: stacked.induct) auto

lemma stacked_cover0: "stacked lo hi xs \<Longrightarrow> row < lo \<or> hi \<le> row \<Longrightarrow> coverCount xs row = 0"
  by (induction lo hi xs rule: stacked.induct) (auto simp: coverCount_def)

lemma stacked_cover: "stacked lo hi xs \<Longrightarrow> coverCount xs row \<le> 1"
proof (induction lo hi xs rule: stacked.induct)
  case (1 lo hi)
  show ?case by (simp add: coverCount_def)
next
  case (2 lo hi y h rest)
  then have r: "stacked (y + h) hi rest" and ih: "coverCount rest row \<le> 1"
    by auto
  show ?case
  proof (cases "row < y + h")
    case True
    with stacked_cover0 [OF r, of row] show ?thesis
      by (simp add: coverCount_Cons)
  next
    case False
    with ih show ?thesis
      by (simp add: coverCount_Cons)
  qed
qed

lemma stacked_append:
  "stacked lo mid xs \<Longrightarrow> stacked mid hi ys \<Longrightarrow> lo \<le> mid \<Longrightarrow> mid \<le> hi \<Longrightarrow>
     stacked lo hi (xs @ ys)"
proof (induction lo mid xs rule: stacked.induct)
  case (1 lo mid)
  then show ?case
    by (auto intro: stacked_mono)
next
  case (2 lo mid y h rest)
  then show ?case by auto
qed

lemma stacked_filter: "stacked lo hi xs \<Longrightarrow> stacked lo hi (filter P xs)"
proof (induction lo hi xs rule: stacked.induct)
  case (1 lo hi)
  show ?case by simp
next
  case (2 lo hi y h rest)
  then have "stacked (y + h) hi (filter P rest)" by simp
  from stacked_mono [OF this, of lo hi] 2 show ?case
    by auto
qed

lemma mergeFrom_chained:
  assumes "\<forall>iv \<in> set (prev # rest). istart iv \<le> iend iv \<and> iend iv \<le> hi"
    and "sorted (map istart (prev # rest))" and "0 \<le> g" and "lo \<le> istart prev"
  shows "chained lo hi (mergeFrom g prev rest)"
  using assms
proof (induction rest arbitrary: prev lo)
  case Nil
  then show ?case by simp
next
  case (Cons cur rest)
  show ?case
  proof (cases "istart cur \<le> iend prev + g")
    case True
    let ?p = "prev\<lparr>iend := max (iend prev) (iend cur)\<rparr>"
    have a: "\<forall>iv \<in> set (?p # rest). istart iv \<le> iend iv \<and> iend iv \<le> hi"
      using Cons.prems(1) by auto
    have b: "sorted (map istart (?p # rest))"
      using Cons.prems(2) by auto
    have c: "lo \<le> istart ?p"
      using Cons.prems(4) by simp
    from Cons.IH [OF a b Cons.prems(3) c] True show ?thesis
      by simp
  next
    case False
    have a: "\<forall>iv \<in> set (cur # rest). istart iv \<le> iend iv \<and> iend iv \<le> hi"
      using Cons.prems(1) by auto
    have b: "sorted (map istart (cur # rest))"
      using Cons.prems(2) by auto
    have c: "iend prev \<le> istart cur"
      using False Cons.prems(3) by linarith
    from Cons.IH [OF a b Cons.prems(3) c] False Cons.prems(1,4) show ?thesis
      by simp
  qed
qed

lemma mergeIntervals_chained:
  assumes "\<forall>iv \<in> set ivs. lo \<le> istart iv \<and> istart iv \<le> iend iv \<and> iend iv \<le> hi" and "0 \<le> g"
  shows "chained lo hi (mergeIntervals ivs g)"
proof (cases "sort_key istart ivs")
  case Nil
  then show ?thesis by (simp add: mergeIntervals_def)
next
  case (Cons first rest)
  have s: "set (first # rest) = set ivs"
    using Cons set_sort [of istart ivs] by simp
  have a: "\<forall>iv \<in> set (first # rest). istart iv \<le> iend iv \<and> iend iv \<le> hi"
    unfolding s using assms(1) by blast
  have b: "sorted (map istart (first # rest))"
    using Cons sorted_sort_key [of istart ivs] by simp
  have c: "lo \<le> istart first"
    using s assms(1) by auto
  from mergeFrom_chained [OF a b assms(2) c] Cons show ?thesis
    by (simp add: mergeIntervals_def)
qed

lemma chained_tiles:
  "chained lo hi ms \<Longrightarrow> stacked lo hi (concat (map (\<lambda>m. tiles maxH (iend m) (istart m)) ms))"
proof (induction lo hi ms rule: chained.induct)
  case (1 lo hi)
  show ?case by simp
next
  case (2 lo hi m ms)
  have a: "stacked lo (iend m) (tiles maxH (iend m) (istart m))"
    using stacked_mono [OF tiles_stacked, of lo "istart m" "iend m" "iend m" maxH] 2 by simp
  have b: "stacked (iend m) hi (concat (map (\<lambda>m. tiles maxH (iend m) (istart m)) ms))"
    using 2 by simp
  from stacked_append [OF a b] 2 show ?case
    by simp
qed

lemma those_map_Some: "those (map (\<lambda>x. Some (f x)) xs) = Some (map f xs)"
  by (induction xs) auto

lemma splitByMaxHeight_tiles:
  "0 < maxH \<Longrightarrow> splitByMaxHeight m maxH =
     Some (map (\<lambda>(y, h). \<lparr>istart = y, iend = y + h\<rparr>) (tiles maxH (iend m) (istart m)))"
  by (simp add: splitByMaxHeight_def tileLoop_tiles)

lemma childInterval_valid:
  "childInterval fy mw msh bt bb c = Some iv \<Longrightarrow> bt \<le> bb \<Longrightarrow> 0 \<le> msh \<Longrightarrow>
     bt \<le> istart iv \<and> istart iv \<le> iend iv \<and> iend iv \<le> bb"
  by (auto simp: childInterval_def Let_def clamp_def split: option.splits if_splits)

lemma map_filter_mem:
  "y \<in> set (List.map_filter f xs) \<Longrightarrow> \<exists>x \<in> set xs. f x = Some y"
  by (induction xs) (auto split: option.splits)

lemma collectIntervals_valid:
  assumes "bt < bb" and "iv \<in> set (collectIntervals node fy fw fh bt bb)"
  shows "bt \<le> istart iv \<and> istart iv \<le> iend iv \<and> iend iv \<le> bb"
proof -
  define msh where "msh = max 40 (round_js (real_of_int fh * (3 / 100)))"
  define mw where "mw = max 120 (round_js (real_of_int fw * (55 / 100)))"
  define found where "found = (case children node of None \<Rightarrow> []
     | Some cs \<Rightarrow> List.map_filter (childInterval fy mw msh bt bb) cs)"
  have c: "collectIntervals node fy fw fh bt bb =
      (if found = [] then [\<lparr>istart = bt, iend = bb\<rparr>] else found)"
    by (simp only: collectIntervals_def Let_def found_def msh_def mw_def)
  have m: "0 \<le> msh"
    by (simp add: msh_def)
  show ?thesis
  proof (cases "found = []")
    case True
    with assms c show ?thesis by simp
  next
    case False
    with assms(2) c have i: "iv \<in> set found" by simp
    then obtain cs where cs: "children node = Some cs"
      by (cases "children node") (simp_all add: found_def)
    from i cs have "iv \<in> set (List.map_filter (childInterval fy mw msh bt bb) cs)"
      by (simp add: found_def)
    from map_filter_mem [OF this] obtain ch where "childInterval fy mw msh bt bb ch = Some iv"
      by blast
    from childInterval_valid [OF this] assms(1) m show ?thesis
      by simp
  qed
qed

lemma safeMaxOf_pos: "200 \<le> safeMaxOf m"
  by (simp add: safeMaxOf_def)

lemma autoLoop_tiles:
  "autoLoop lw bb m y =
     map (\<lambda>(y, h). \<lparr>sx = 0, sy = y, width = lw, height = h, url = [], label = [], alt = []\<rparr>)
       (tiles (safeMaxOf m) bb y)"
proof (induction lw bb m y rule: autoLoop.induct)
  case (1 lw bb m y)
  have p: "0 < safeMaxOf m"
    using safeMaxOf_pos [of m] by linarith
  show ?case
  proof (cases "y < bb")
    case True
    with "1.IH" p show ?thesis
      by (subst autoLoop.simps, subst tiles.simps) simp
  next
    case False
    then show ?thesis
      by (subst autoLoop.simps, subst tiles.simps) simp
  qed
qed

lemma slice_spans:
  "map sliceSpan
     (map (\<lambda>(y, h). \<lparr>sx = 0, sy = y, width = lw, height = h, url = [], label = [], alt = []\<rparr>) zs) = zs"
  by (induction zs) (auto simp: sliceSpan_def)

lemma autoLoop_spans: "map sliceSpan (autoLoop lw bb m y) = tiles (safeMaxOf m) bb y"
  unfolding autoLoop_tiles by (rule slice_spans)

lemma suggestion_spans:
  "map suggestionSpan (map (\<lambda>(y, h). toSuggestion fw y h) zs) = zs"
  by (induction zs) (auto simp: suggestionSpan_def toSuggestion_def)

lemma cutSlices_spans:
  assumes "0 < maxH"
  shows "cutSlices fw maxH bt bb g ivs =
    Some (map (\<lambda>(y, h). toSuggestion fw y h)
      (if filter (\<lambda>(y, h). \<not> h < 8)
            (concat (map (\<lambda>m. tiles maxH (iend m) (istart m)) (mergeIntervals ivs g))) = []
       then tiles maxH bb bt
       else filter (\<lambda>(y, h). \<not> h < 8)
            (concat (map (\<lambda>m. tiles maxH (iend m) (istart m)) (mergeIntervals ivs g)))))"
proof -
  define merged where "merged = mergeIntervals ivs g"
  define toIv where "toIv = (\<lambda>(y :: int, h :: int). \<lparr>istart = y, iend = y + h\<rparr>)"
  define spans where "spans = concat (map (\<lambda>m. tiles maxH (iend m) (istart m)) merged)"
  have t: "those (map (\<lambda>m. splitByMaxHeight m maxH) merged) =
      Some (map (\<lambda>m. map toIv (tiles maxH (iend m) (istart m))) merged)"
    using assms by (simp add: splitByMaxHeight_tiles those_map_Some toIv_def)
  have c: "concat (map (\<lambda>m. map toIv (tiles maxH (iend m) (istart m))) merged) = map toIv spans"
    by (simp add: spans_def map_concat comp_def)
  have f: "filter (\<lambda>c. \<not> iend c - istart c < 8) (map toIv spans) =
      map toIv (filter (\<lambda>(y, h). \<not> h < 8) spans)"
    by (induction spans) (auto simp: toIv_def)
  have m: "map (\<lambda>c. toSuggestion fw (istart c) (iend c - istart c)) (map toIv zs) =
      map (\<lambda>(y, h). toSuggestion fw y h) zs" for zs
    by (induction zs) (auto simp: toIv_def)
  have p: "toSuggestion fw (istart (toIv (a, b))) (iend (toIv (a, b)) - istart (toIv (a, b))) =
      toSuggestion fw a b" for a b
    by (simp add: toIv_def)
  show ?thesis
    unfolding cutSlices_def merged_def [symmetric] t spans_def [symmetric]
    using assms by (simp add: c f m p Let_def tileLoop_tiles)
qed

lemma tiles_full_or_last:
  "(y', h) \<in> set (tiles maxH bottom y) \<Longrightarrow> h = maxH \<or> y' + h = bottom"
proof (induction maxH bottom y rule: tiles.induct)
  case (1 maxH bottom y)
  show ?case
  proof (cases "y < bottom \<and> 0 < maxH")
    case True
    have unf: "tiles maxH bottom y =
        (y, min maxH (bottom - y)) # tiles maxH bottom (y + min maxH (bottom - y))"
      using True by (subst tiles.simps) simp
    from "1.prems" have "(y', h) = (y, min maxH (bottom - y))
        \<or> (y', h) \<in> set (tiles maxH bottom (y + min maxH (bottom - y)))"
      unfolding unf by simp
    then show ?thesis
    proof
      assume "(y', h) = (y, min maxH (bottom - y))"
      then show ?thesis
        by (auto simp: min_def)
    next
      assume "(y', h) \<in> set (tiles maxH bottom (y + min maxH (bottom - y)))"
      with "1.IH" [OF True] show ?thesis
        by blast
    qed
  next
    case False
    with "1.prems" show ?thesis
      by (subst (asm) tiles.simps) auto
  qed
qed

lemma stacked_within:
  "stacked lo hi xs \<Longrightarrow> (y, h) \<in> set xs \<Longrightarrow> lo \<le> y \<and> 0 < h \<and> y + h \<le> hi"
proof (induction lo hi xs rule: stacked.induct)
  case (1 lo hi)
  then show ?case by simp
next
  case (2 lo hi y0 h0 rest)
  then show ?case by auto
qed

lemma tiles_within:
  "(y', h) \<in> set (tiles maxH bottom y) \<Longrightarrow> y \<le> y' \<and> 0 < h \<and> y' + h \<le> bottom"
  using stacked_within [OF tiles_stacked] by blast

lemma coverCount_pos:
  "(0 < coverCount xs row) = (\<exists>(y, h) \<in> set xs. y \<le> row \<and> row < y + h)"
  by (induction xs) (auto simp: coverCount_def)

lemma mergeFrom_contains:
  assumes "sorted (map istart (prev # rest))" and "iv \<in> set (prev # rest)"
  shows "\<exists>m \<in> set (mergeFrom g prev rest). istart m \<le> istart iv \<and> iend iv \<le> iend m"
  using assms
proof (induction rest arbitrary: prev iv)
  case Nil
  then show ?case by simp
next
  case (Cons cur rest)
  show ?case
  proof (cases "istart cur \<le> iend prev + g")
    case True
    let ?p = "prev\<lparr>iend := max (iend prev) (iend cur)\<rparr>"
    have s: "sorted (map istart (?p # rest))"
      using Cons.prems(1) by auto
    have pc: "istart prev \<le> istart cur"
      using Cons.prems(1) by simp
    have "\<exists>m \<in> set (mergeFrom g ?p rest). istart m \<le> istart iv \<and> iend iv \<le> iend m"
    proof (cases "iv \<in> set rest")
      case True
      then have "iv \<in> set (?p # rest)" by simp
      from Cons.IH [OF s this] show ?thesis .
    next
      case False
      with Cons.prems(2) have c: "iv = prev \<or> iv = cur" by auto
      have "?p \<in> set (?p # rest)" by simp
      from Cons.IH [OF s this] obtain m where m: "m \<in> set (mergeFrom g ?p rest)"
        and b: "istart m \<le> istart ?p \<and> iend ?p \<le> iend m"
        by blast
      from c b pc have "istart m \<le> istart iv \<and> iend iv \<le> iend m"
        by auto
      with m show ?thesis by blast
    qed
    with True show ?thesis by simp
  next
    case False
    have s: "sorted (map istart (cur # rest))"
      using Cons.prems(1) by auto
    show ?thesis
    proof (cases "iv = prev")
      case True
      with False show ?thesis by simp
    next
      case neq: False
      with Cons.prems(2) have "iv \<in> set (cur # rest)" by auto
      from Cons.IH [OF s this] False show ?thesis by simp
    qed
  qed
qed

lemma mergeIntervals_contains:
  assumes "iv \<in> set ivs"
  shows "\<exists>m \<in> set (mergeIntervals ivs g). istart m \<le> istart iv \<and> iend iv \<le> iend m"
proof (cases "sort_key istart ivs")
  case Nil
  with assms set_sort [of istart ivs] show ?thesis by simp
next
  case (Cons first rest)
  have s: "set (first # rest) = set ivs"
    using Cons set_sort [of istart ivs] by simp
  have a: "sorted (map istart (first # rest))"
    using Cons sorted_sort_key [of istart ivs] by simp
  have b: "iv \<in> set (first # rest)"
    unfolding s by (rule assms)
  from mergeFrom_contains [OF a b, of g] Cons show ?thesis
    by (simp add: mergeIntervals_def)
qed

lemma mergeIntervals_single: "mergeIntervals [x] g = [x]"
  by (simp add: mergeIntervals_def)

lemma map_filter_Some:
  "x \<in> set xs \<Longrightarrow> f x = Some y \<Longrightarrow> y \<in> set (List.map_filter f xs)"
  by (induction xs) (auto split: option.splits)

lemma childInterval_long:
  "childInterval fy mw msh bt bb c = Some iv \<Longrightarrow> msh \<le> iend iv - istart iv"
  by (auto simp: childInterval_def Let_def split: option.splits if_splits)

lemma collectIntervals_cases:
  "collectIntervals node fy fw fh bt bb = [\<lparr>istart = bt, iend = bb\<rparr>]
   \<or> (collectIntervals node fy fw fh bt bb \<noteq> []
       \<and> (\<forall>iv \<in> set (collectIntervals node fy fw fh bt bb). 40 \<le> iend iv - istart iv))"
proof -
  define msh where "msh = max 40 (round_js (real_of_int fh * (3 / 100)))"
  define mw where "mw = max 120 (round_js (real_of_int fw * (55 / 100)))"
  define found where "found = (case children node of None \<Rightarrow> []
     | Some cs \<Rightarrow> List.map_filter (childInterval fy mw msh bt bb) cs)"
  have c: "collectIntervals node fy fw fh bt bb =
      (if found = [] then [\<lparr>istart = bt, iend = bb\<rparr>] else found)"
    by (simp only: collectIntervals_def Let_def found_def msh_def mw_def)
  have m: "40 \<le> msh"
    by (simp add: msh_def)
  show ?thesis
  proof (cases "found = []")
    case True
    with c show ?thesis by simp
  next
    case False
    have "40 \<le> iend iv - istart iv" if "iv \<in> set found" for iv
    proof -
      from that obtain cs where cs: "children node = Some cs"
        by (cases "children node") (simp_all add: found_def)
      from that cs have "iv \<in> set (List.map_filter (childInterval fy mw msh bt bb) cs)"
        by (simp add: found_def)
      from map_filter_mem [OF this] obtain ch where "childInterval fy mw msh bt bb ch = Some iv"
        by blast
      from childInterval_long [OF this] m show ?thesis
        by linarith
    qed
    with False c show ?thesis by simp
  qed
qed

lemma suggestSlices_body:
  assumes "frameBounds node = Some fb" and "suggestBodyTop node opt < suggestBodyBottom node opt"
  shows "suggestSlices node opt =
     cutSlices (round_js (nodeWidth node)) (suggestMaxHeight opt)
       (suggestBodyTop node opt) (suggestBodyBottom node opt)
       (max 12 (round_js (real_of_int (round_js (nodeHeight node)) * (1 / 100))))
       (collectIntervals node (bnd_y fb) (round_js (nodeWidth node)) (round_js (nodeHeight node))
          (suggestBodyTop node opt) (suggestBodyBottom node opt))"
  using assms by (simp only: suggestSlices_def Let_def option.case) simp

lemma suggestMaxHeight_pos: "200 \<le> suggestMaxHeight opt"
  by (simp add: suggestMaxHeight_def)

lemma kept_lower:
  assumes "8 \<le> maxH" and "m \<in> set merged" and "istart m \<le> row" and "row + 7 < iend m"
  shows "\<exists>(y, h) \<in> set (keptChunks maxH merged). y \<le> row \<and> row < y + h"
proof -
  have p: "0 < maxH"
    using assms(1) by linarith
  have "0 < coverCount (tiles maxH (iend m) (istart m)) row"
    unfolding tiles_cover [OF p] using assms(3,4) by simp
  then obtain y h where t: "(y, h) \<in> set (tiles maxH (iend m) (istart m))"
    and c: "y \<le> row \<and> row < y + h"
    unfolding coverCount_pos by blast
  from tiles_full_or_last [OF t] c assms(1,4) have "\<not> h < 8"
    by linarith
  with t assms(2) have "(y, h) \<in> set (keptChunks maxH merged)"
    by (auto simp: keptChunks_def)
  with c show ?thesis
    by blast
qed

lemma kept_inside:
  assumes "(y, h) \<in> set (keptChunks maxH merged)"
  shows "\<exists>m :: interval. m \<in> set merged \<and> istart m \<le> y \<and> y + h \<le> iend m \<and> 0 < h \<and> h \<le> maxH
           \<and> (h = maxH \<or> y + h = iend m)"
proof -
  from assms obtain m :: interval where m: "m \<in> set merged"
    and t: "(y, h) \<in> set (tiles maxH (iend m) (istart m))"
    by (auto simp: keptChunks_def)
  from tiles_within [OF t] tiles_height [OF t] tiles_full_or_last [OF t] m show ?thesis
    by blast
qed

lemma fallback_body:
  assumes "8 \<le> maxH"
    and "ivs = [\<lparr>istart = bt, iend = bb\<rparr>] \<or> (ivs \<noteq> [] \<and> (\<forall>iv \<in> set ivs. 40 \<le> iend iv - istart iv))"
    and "keptChunks maxH (mergeIntervals ivs g) = []"
  shows "mergeIntervals ivs g = [\<lparr>istart = bt, iend = bb\<rparr>]"
proof (cases "ivs = [\<lparr>istart = bt, iend = bb\<rparr>]")
  case True
  then show ?thesis by (simp add: mergeIntervals_single)
next
  case False
  with assms(2) obtain iv where iv: "iv \<in> set ivs" and long: "40 \<le> iend iv - istart iv"
    by (cases ivs) auto
  from mergeIntervals_contains [OF iv, of g] obtain m where m: "m \<in> set (mergeIntervals ivs g)"
    and c: "istart m \<le> istart iv \<and> iend iv \<le> iend m"
    by blast
  have "istart m + 7 < iend m"
    using c long by linarith
  from kept_lower [OF assms(1) m _ this] assms(3) show ?thesis
    by simp
qed

lemma out_inside:
  assumes "8 \<le> maxH"
    and "ivs = [\<lparr>istart = bt, iend = bb\<rparr>] \<or> (ivs \<noteq> [] \<and> (\<forall>iv \<in> set ivs. 40 \<le> iend iv - istart iv))"
    and "(y, h) \<in> set (if keptChunks maxH (mergeIntervals ivs g) = [] then tiles maxH bb bt
                        else keptChunks maxH (mergeIntervals ivs g))"
  shows "\<exists>m :: interval. m \<in> set (mergeIntervals ivs g) \<and> istart m \<le> y \<and> y + h \<le> iend m \<and> 0 < h
           \<and> h \<le> maxH \<and> (h = maxH \<or> y + h = iend m)"
proof (cases "keptChunks maxH (mergeIntervals ivs g) = []")
  case False
  with assms(3) show ?thesis
    by (simp add: kept_inside)
next
  case True
  with assms(3) have t: "(y, h) \<in> set (tiles maxH bb bt)"
    by simp
  have b: "mergeIntervals ivs g = [\<lparr>istart = bt, iend = bb\<rparr>]"
    by (rule fallback_body [OF assms(1,2) True])
  from tiles_within [OF t] tiles_height [OF t] tiles_full_or_last [OF t] show ?thesis
    unfolding b by simp
qed

lemma out_lower:
  assumes "8 \<le> maxH" and "m \<in> set merged" and "istart m \<le> row" and "row + 7 < iend m"
  shows "\<exists>(y, h) \<in> set (if keptChunks maxH merged = [] then tiles maxH bb bt
                          else keptChunks maxH merged). y \<le> row \<and> row < y + h"
proof -
  from kept_lower [OF assms] have e: "\<exists>(y, h) \<in> set (keptChunks maxH merged). y \<le> row \<and> row < y + h" .
  then have "keptChunks maxH merged \<noteq> []"
    by auto
  with e show ?thesis
    by simp
qed

lemma suggestSlices_out:
  assumes "frameBounds node = Some fb" and "suggestBodyTop node opt < suggestBodyBottom node opt"
  shows "suggestSlices node opt =
     Some (map (\<lambda>(y, h). toSuggestion (round_js (nodeWidth node)) y h)
       (if keptChunks (suggestMaxHeight opt) (suggestMerged node opt) = []
        then tiles (suggestMaxHeight opt) (suggestBodyBottom node opt) (suggestBodyTop node opt)
        else keptChunks (suggestMaxHeight opt) (suggestMerged node opt)))"
proof -
  have q: "0 < suggestMaxHeight opt"
    using suggestMaxHeight_pos [of opt] by linarith
  have m: "suggestMerged node opt =
      mergeIntervals
        (collectIntervals node (bnd_y fb) (round_js (nodeWidth node)) (round_js (nodeHeight node))
          (suggestBodyTop node opt) (suggestBodyBottom node opt))
        (max 12 (round_js (real_of_int (round_js (nodeHeight node)) * (1 / 100))))"
    by (simp only: suggestMerged_def suggestIntervals_def suggestJoinGap_def assms(1) option.case)
  show ?thesis
    unfolding suggestSlices_body [OF assms] cutSlices_spans [OF q] m keptChunks_def ..
qed

lemma map_filter_None: "(\<forall>x \<in> set xs. f x = None) \<Longrightarrow> List.map_filter f xs = []"
  by (induction xs) auto

lemma suggestIntervals_eq:
  assumes "frameBounds node = Some fb"
  shows "suggestIntervals node opt =
     collectIntervals node (bnd_y fb) (round_js (nodeWidth node)) (round_js (nodeHeight node))
       (suggestBodyTop node opt) (suggestBodyBottom node opt)"
  by (simp only: suggestIntervals_def assms option.case)

lemma suggestIntervals_found:
  assumes "frameBounds node = Some fb"
  shows "suggestIntervals node opt =
     (if (case children node of None \<Rightarrow> []
          | Some cs \<Rightarrow> List.map_filter (suggestChildSpan node opt) cs) = []
      then [\<lparr>istart = suggestBodyTop node opt, iend = suggestBodyBottom node opt\<rparr>]
      else (case children node of None \<Rightarrow> []
            | Some cs \<Rightarrow> List.map_filter (suggestChildSpan node opt) cs))"
proof -
  have "suggestChildSpan node opt =
      childInterval (bnd_y fb)
        (max 120 (round_js (real_of_int (round_js (nodeWidth node)) * (55 / 100))))
        (max 40 (round_js (real_of_int (round_js (nodeHeight node)) * (3 / 100))))
        (suggestBodyTop node opt) (suggestBodyBottom node opt)"
    by (rule ext) (simp only: suggestChildSpan_def assms option.case)
  then show ?thesis
    by (simp only: suggestIntervals_eq [OF assms] collectIntervals_def Let_def)
qed

lemma suggestIntervals_cases:
  assumes "frameBounds node = Some fb"
  shows "suggestIntervals node opt =
       [\<lparr>istart = suggestBodyTop node opt, iend = suggestBodyBottom node opt\<rparr>]
     \<or> (suggestIntervals node opt \<noteq> []
         \<and> (\<forall>iv \<in> set (suggestIntervals node opt). 40 \<le> iend iv - istart iv))"
  unfolding suggestIntervals_eq [OF assms] by (rule collectIntervals_cases)

lemma suggestIntervals_valid:
  assumes "frameBounds node = Some fb" and "suggestBodyTop node opt < suggestBodyBottom node opt"
  shows "\<forall>iv \<in> set (suggestIntervals node opt).
     suggestBodyTop node opt \<le> istart iv \<and> istart iv \<le> iend iv \<and> iend iv \<le> suggestBodyBottom node opt"
  unfolding suggestIntervals_eq [OF assms(1)] using collectIntervals_valid [OF assms(2)] by blast

lemma suggestMerged_chained:
  assumes "frameBounds node = Some fb" and "suggestBodyTop node opt < suggestBodyBottom node opt"
  shows "chained (suggestBodyTop node opt) (suggestBodyBottom node opt) (suggestMerged node opt)"
  unfolding suggestMerged_def
  by (rule mergeIntervals_chained [OF suggestIntervals_valid [OF assms]])
     (simp add: suggestJoinGap_def)

lemma suggestSlices_stacked:
  assumes "frameBounds node = Some fb" and "suggestBodyTop node opt < suggestBodyBottom node opt"
  shows "stacked (suggestBodyTop node opt) (suggestBodyBottom node opt)
     (if keptChunks (suggestMaxHeight opt) (suggestMerged node opt) = []
      then tiles (suggestMaxHeight opt) (suggestBodyBottom node opt) (suggestBodyTop node opt)
      else keptChunks (suggestMaxHeight opt) (suggestMerged node opt))"
proof -
  have "stacked (suggestBodyTop node opt) (suggestBodyBottom node opt)
      (keptChunks (suggestMaxHeight opt) (suggestMerged node opt))"
    unfolding keptChunks_def
    by (intro stacked_filter chained_tiles suggestMerged_chained [OF assms])
  then show ?thesis
    by (simp add: tiles_stacked)
qed

lemma demo_body:
  "suggestBodyTop demoFrame \<lparr>optHeaderHeight = None, optFooterHeight = None, optMaxSliceHeight = mx\<rparr> = 0"
  "suggestBodyBottom demoFrame \<lparr>optHeaderHeight = None, optFooterHeight = None, optMaxSliceHeight = mx\<rparr> = 2000"
  by (simp_all add: suggestBodyTop_def suggestBodyBottom_def demoFrame_def toInt_def clamp_def
        round_js_def)

lemma demo_merged:
  "suggestMerged demoFrame \<lparr>optHeaderHeight = None, optFooterHeight = None, optMaxSliceHeight = mx\<rparr> =
     [\<lparr>istart = 0, iend = 500\<rparr>]"
proof -
  have c: "collectIntervals demoFrame 0 1000 2000 0 2000 = [\<lparr>istart = 0, iend = 500\<rparr>]"
    by (simp add: collectIntervals_def demoFrame_def childInterval_def clamp_def round_js_def)
  have w: "round_js (nodeWidth demoFrame) = 1000" and h: "round_js (nodeHeight demoFrame) = 2000"
    and f: "frameBounds demoFrame =
      Some \<lparr>bnd_x = 0, bnd_y = 0, bnd_width = 1000, bnd_height = 2000\<rparr>"
    by (simp_all add: demoFrame_def round_js_def)
  show ?thesis
    unfolding suggestMerged_def suggestIntervals_def f option.case w h demo_body
    by (simp add: c mergeIntervals_single)
qed

lemma demo_suggest:
  "suggestSlices demoFrame demoOpts = Some [toSuggestion 1000 0 500]"
  "suggestSlices demoFrame
     \<lparr>optHeaderHeight = None, optFooterHeight = None, optMaxSliceHeight = Some 300\<rparr> =
   Some [toSuggestion 1000 0 300, toSuggestion 1000 300 200]"
proof -
  have f: "frameBounds demoFrame =
      Some \<lparr>bnd_x = 0, bnd_y = 0, bnd_width = 1000, bnd_height = 2000\<rparr>"
    and w: "round_js (nodeWidth demoFrame) = 1000"
    by (simp_all add: demoFrame_def round_js_def)
  have l: "suggestBodyTop demoFrame \<lparr>optHeaderHeight = None, optFooterHeight = None,
        optMaxSliceHeight = mx\<rparr>
      < suggestBodyBottom demoFrame \<lparr>optHeaderHeight = None, optFooterHeight = None,
        optMaxSliceHeight = mx\<rparr>" for mx
    unfolding demo_body by simp
  have m1: "suggestMaxHeight \<lparr>optHeaderHeight = None, optFooterHeight = None,
      optMaxSliceHeight = None\<rparr> = 1200"
    and m3: "suggestMaxHeight \<lparr>optHeaderHeight = None, optFooterHeight = None,
      optMaxSliceHeight = Some 300\<rparr> = 300"
    by (simp_all add: suggestMaxHeight_def toInt_def round_js_def)
  have k1: "keptChunks 1200 [\<lparr>istart = 0, iend = 500\<rparr>] = [(0, 500)]"
    and k3: "keptChunks 300 [\<lparr>istart = 0, iend = 500\<rparr>] = [(0, 300), (300, 200)]"
    by (simp_all add: keptChunks_def tiles.simps)
  show "suggestSlices demoFrame demoOpts = Some [toSuggestion 1000 0 500]"
    unfolding demoOpts_def suggestSlices_out [OF f l] demo_merged m1 k1 w by simp
  show "suggestSlices demoFrame
     \<lparr>optHeaderHeight = None, optFooterHeight = None, optMaxSliceHeight = Some 300\<rparr> =
   Some [toSuggestion 1000 0 300, toSuggestion 1000 300 200]"
    unfolding suggestSlices_out [OF f l] demo_merged m3 k3 w by simp
qed

text \<open>
  Claim C1, as stated, at a frame of 1000 by 2000 with no header or footer band and one
  qualifying child over the rows 0 to 500: the body region is \<open>[0, 2000)\<close>, the suggester
  returns the single rectangle of that child, and row 600 of the body belongs to no
  returned rectangle.
\<close>

theorem suggestSlices_gap_counterexample:
  "suggestBodyTop demoFrame demoOpts = 0
   \<and> suggestBodyBottom demoFrame demoOpts = 2000
   \<and> suggestSlices demoFrame demoOpts = Some [toSuggestion 1000 0 500]
   \<and> coverCount (map suggestionSpan [toSuggestion 1000 0 500]) 600 = 0"
proof -
  have n: "coverCount (map suggestionSpan [toSuggestion 1000 0 500]) 600 = 0"
    by (simp add: coverCount_def suggestionSpan_def toSuggestion_def)
  from demo_body [of None] demo_suggest(1) n show ?thesis
    unfolding demoOpts_def by (intro conjI)
qed

text \<open>
  Claim C1, amended. The backend's \<^verbatim>\<open>buildAutoVerticalSlices\<close> tiles a non-empty body
  region exactly: it returns at least one rectangle, and every pixel row of
  \<open>[bodyTop, bodyBottom)\<close> belongs to exactly one returned rectangle, every other row to
  none. The plugin's \<^verbatim>\<open>suggestSlices\<close>, for a frame with a bounding box and a non-empty
  body region, returns at least one rectangle; the returned rectangles have positive
  heights, lie inside the body region and follow one another from top to bottom without
  overlapping, so that every pixel row belongs to at most one of them. They cover the
  merged intervals and nothing else: a row outside every merged interval belongs to no
  rectangle, and a row of a merged interval belongs to exactly one rectangle, unless it
  is among the last 7 rows of that interval (a last chunk under 8 pixels is dropped).
  The merged intervals follow one another inside the body region; the span of every
  qualifying child lies within one of them, and when no child qualifies the body region
  is the only one.
\<close>

theorem auto_slices_cover:
  "(bt < bb \<longrightarrow>
      buildAutoVerticalSlices lw bt bb m \<noteq> []
      \<and> coverCount (map sliceSpan (buildAutoVerticalSlices lw bt bb m)) row =
          (if bt \<le> row \<and> row < bb then 1 else 0))
   \<and> (frameBounds node \<noteq> None \<and> suggestBodyTop node opt < suggestBodyBottom node opt \<longrightarrow>
      (\<exists>ss. suggestSlices node opt = Some ss \<and> ss \<noteq> []
         \<and> stacked (suggestBodyTop node opt) (suggestBodyBottom node opt) (map suggestionSpan ss)
         \<and> coverCount (map suggestionSpan ss) row \<le> 1
         \<and> (row < suggestBodyTop node opt \<or> suggestBodyBottom node opt \<le> row \<longrightarrow>
              coverCount (map suggestionSpan ss) row = 0)
         \<and> ((\<exists>iv \<in> set (suggestMerged node opt). istart iv \<le> row \<and> row + 7 < iend iv) \<longrightarrow>
              coverCount (map suggestionSpan ss) row = 1)
         \<and> ((\<forall>iv \<in> set (suggestMerged node opt). row < istart iv \<or> iend iv \<le> row) \<longrightarrow>
              coverCount (map suggestionSpan ss) row = 0))
      \<and> chained (suggestBodyTop node opt) (suggestBodyBottom node opt) (suggestMerged node opt)
      \<and> (children node = Some cs \<and> c \<in> set cs \<and> suggestChildSpan node opt c = Some cspan \<longrightarrow>
           (\<exists>iv \<in> set (suggestMerged node opt). istart iv \<le> istart cspan \<and> iend cspan \<le> iend iv))
      \<and> (children node = None
           \<or> children node = Some cs \<and> (\<forall>c \<in> set cs. suggestChildSpan node opt c = None) \<longrightarrow>
           suggestMerged node opt =
             [\<lparr>istart = suggestBodyTop node opt, iend = suggestBodyBottom node opt\<rparr>]))"
proof -
  have p: "0 < safeMaxOf m"
    using safeMaxOf_pos [of m] by linarith
  have a: "bt < bb \<longrightarrow>
      buildAutoVerticalSlices lw bt bb m \<noteq> []
      \<and> coverCount (map sliceSpan (buildAutoVerticalSlices lw bt bb m)) row =
          (if bt \<le> row \<and> row < bb then 1 else 0)"
  proof
    assume l: "bt < bb"
    have "map sliceSpan (buildAutoVerticalSlices lw bt bb m) \<noteq> []"
      unfolding buildAutoVerticalSlices_def autoLoop_spans by (rule tiles_nonempty [OF l p])
    then have n: "buildAutoVerticalSlices lw bt bb m \<noteq> []"
      by auto
    have c: "coverCount (map sliceSpan (buildAutoVerticalSlices lw bt bb m)) row =
          (if bt \<le> row \<and> row < bb then 1 else 0)"
      unfolding buildAutoVerticalSlices_def autoLoop_spans by (rule tiles_cover [OF p])
    from n c show "buildAutoVerticalSlices lw bt bb m \<noteq> []
      \<and> coverCount (map sliceSpan (buildAutoVerticalSlices lw bt bb m)) row =
          (if bt \<le> row \<and> row < bb then 1 else 0)"
      by (rule conjI)
  qed
  have b: "(\<exists>ss. suggestSlices node opt = Some ss \<and> ss \<noteq> []
         \<and> stacked (suggestBodyTop node opt) (suggestBodyBottom node opt) (map suggestionSpan ss)
         \<and> coverCount (map suggestionSpan ss) row \<le> 1
         \<and> (row < suggestBodyTop node opt \<or> suggestBodyBottom node opt \<le> row \<longrightarrow>
              coverCount (map suggestionSpan ss) row = 0)
         \<and> ((\<exists>iv \<in> set (suggestMerged node opt). istart iv \<le> row \<and> row + 7 < iend iv) \<longrightarrow>
              coverCount (map suggestionSpan ss) row = 1)
         \<and> ((\<forall>iv \<in> set (suggestMerged node opt). row < istart iv \<or> iend iv \<le> row) \<longrightarrow>
              coverCount (map suggestionSpan ss) row = 0))
      \<and> chained (suggestBodyTop node opt) (suggestBodyBottom node opt) (suggestMerged node opt)
      \<and> (children node = Some cs \<and> c \<in> set cs \<and> suggestChildSpan node opt c = Some cspan \<longrightarrow>
           (\<exists>iv \<in> set (suggestMerged node opt). istart iv \<le> istart cspan \<and> iend cspan \<le> iend iv))
      \<and> (children node = None
           \<or> children node = Some cs \<and> (\<forall>c \<in> set cs. suggestChildSpan node opt c = None) \<longrightarrow>
           suggestMerged node opt =
             [\<lparr>istart = suggestBodyTop node opt, iend = suggestBodyBottom node opt\<rparr>])"
    if f: "frameBounds node \<noteq> None" and l: "suggestBodyTop node opt < suggestBodyBottom node opt"
  proof -
    from f obtain fb where fb: "frameBounds node = Some fb"
      by (cases "frameBounds node") auto
    define out where "out =
      (if keptChunks (suggestMaxHeight opt) (suggestMerged node opt) = []
       then tiles (suggestMaxHeight opt) (suggestBodyBottom node opt) (suggestBodyTop node opt)
       else keptChunks (suggestMaxHeight opt) (suggestMerged node opt))"
    define ss where "ss = map (\<lambda>(y, h). toSuggestion (round_js (nodeWidth node)) y h) out"
    have q8: "8 \<le> suggestMaxHeight opt" and q: "0 < suggestMaxHeight opt"
      using suggestMaxHeight_pos [of opt] by linarith+
    have r: "suggestSlices node opt = Some ss"
      unfolding ss_def out_def by (rule suggestSlices_out [OF fb l])
    have sp: "map suggestionSpan ss = out"
      unfolding ss_def by (rule suggestion_spans)
    have st: "stacked (suggestBodyTop node opt) (suggestBodyBottom node opt) out"
      unfolding out_def by (rule suggestSlices_stacked [OF fb l])
    have ne: "ss \<noteq> []"
    proof -
      have "out \<noteq> []"
        using tiles_nonempty [OF l q] by (simp add: out_def)
      then show ?thesis
        by (simp add: ss_def)
    qed
    have le: "coverCount out row \<le> 1"
      by (rule stacked_cover [OF st])
    have outside: "row < suggestBodyTop node opt \<or> suggestBodyBottom node opt \<le> row \<longrightarrow>
        coverCount out row = 0"
      using stacked_cover0 [OF st] by blast
    have lower: "(\<exists>iv \<in> set (suggestMerged node opt). istart iv \<le> row \<and> row + 7 < iend iv) \<longrightarrow>
        coverCount out row = 1"
    proof
      assume "\<exists>iv \<in> set (suggestMerged node opt). istart iv \<le> row \<and> row + 7 < iend iv"
      then obtain iv where "iv \<in> set (suggestMerged node opt)" and "istart iv \<le> row"
        and "row + 7 < iend iv"
        by blast
      from out_lower [OF q8 this] have "0 < coverCount out row"
        unfolding coverCount_pos out_def .
      with le show "coverCount out row = 1"
        by linarith
    qed
    have upper: "(\<forall>iv \<in> set (suggestMerged node opt). row < istart iv \<or> iend iv \<le> row) \<longrightarrow>
        coverCount out row = 0"
    proof
      assume none: "\<forall>iv \<in> set (suggestMerged node opt). row < istart iv \<or> iend iv \<le> row"
      have "\<not> 0 < coverCount out row"
      proof
        assume "0 < coverCount out row"
        then obtain y h where m: "(y, h) \<in> set out" and c: "y \<le> row \<and> row < y + h"
          unfolding coverCount_pos by blast
        from out_inside [OF q8 suggestIntervals_cases [OF fb] m [unfolded out_def suggestMerged_def]]
        obtain iv :: interval where "iv \<in> set (suggestMerged node opt)"
          and "istart iv \<le> y \<and> y + h \<le> iend iv"
          unfolding suggestMerged_def by blast
        with none c show False
          by force
      qed
      then show "coverCount out row = 0"
        by simp
    qed
    have ch: "chained (suggestBodyTop node opt) (suggestBodyBottom node opt) (suggestMerged node opt)"
      by (rule suggestMerged_chained [OF fb l])
    have inside: "children node = Some cs \<and> c \<in> set cs \<and> suggestChildSpan node opt c = Some cspan \<longrightarrow>
        (\<exists>iv \<in> set (suggestMerged node opt). istart iv \<le> istart cspan \<and> iend cspan \<le> iend iv)"
    proof (intro impI, elim conjE)
      assume cs: "children node = Some cs" and c: "c \<in> set cs"
        and s: "suggestChildSpan node opt c = Some cspan"
      have "cspan \<in> set (List.map_filter (suggestChildSpan node opt) cs)"
        using c s by (rule map_filter_Some [where f = "suggestChildSpan node opt"])
      then have "cspan \<in> set (suggestIntervals node opt)"
        unfolding suggestIntervals_found [OF fb] cs by auto
      from mergeIntervals_contains [OF this]
      show "\<exists>iv \<in> set (suggestMerged node opt). istart iv \<le> istart cspan \<and> iend cspan \<le> iend iv"
        unfolding suggestMerged_def .
    qed
    have whole: "children node = None
        \<or> children node = Some cs \<and> (\<forall>c \<in> set cs. suggestChildSpan node opt c = None) \<longrightarrow>
        suggestMerged node opt =
          [\<lparr>istart = suggestBodyTop node opt, iend = suggestBodyBottom node opt\<rparr>]"
    proof
      assume "children node = None
        \<or> children node = Some cs \<and> (\<forall>c \<in> set cs. suggestChildSpan node opt c = None)"
      then have "(case children node of None \<Rightarrow> []
          | Some cs \<Rightarrow> List.map_filter (suggestChildSpan node opt) cs) = []"
        by (auto simp: map_filter_None)
      then have "suggestIntervals node opt =
          [\<lparr>istart = suggestBodyTop node opt, iend = suggestBodyBottom node opt\<rparr>]"
        unfolding suggestIntervals_found [OF fb] by simp
      then show "suggestMerged node opt =
          [\<lparr>istart = suggestBodyTop node opt, iend = suggestBodyBottom node opt\<rparr>]"
        by (simp add: suggestMerged_def mergeIntervals_single)
    qed
    have first: "\<exists>ss. suggestSlices node opt = Some ss \<and> ss \<noteq> []
         \<and> stacked (suggestBodyTop node opt) (suggestBodyBottom node opt) (map suggestionSpan ss)
         \<and> coverCount (map suggestionSpan ss) row \<le> 1
         \<and> (row < suggestBodyTop node opt \<or> suggestBodyBottom node opt \<le> row \<longrightarrow>
              coverCount (map suggestionSpan ss) row = 0)
         \<and> ((\<exists>iv \<in> set (suggestMerged node opt). istart iv \<le> row \<and> row + 7 < iend iv) \<longrightarrow>
              coverCount (map suggestionSpan ss) row = 1)
         \<and> ((\<forall>iv \<in> set (suggestMerged node opt). row < istart iv \<or> iend iv \<le> row) \<longrightarrow>
              coverCount (map suggestionSpan ss) row = 0)"
      using r ne st le outside lower upper unfolding sp [symmetric] by blast
    from first ch inside whole show ?thesis
      by (intro conjI)
  qed
  from a b show ?thesis
    by blast
qed

theorem auto_slices_cover_witness:
  "suggestSlices demoFrame demoOpts = Some [toSuggestion 1000 0 500]
   \<and> suggestMerged demoFrame demoOpts = [\<lparr>istart = 0, iend = 500\<rparr>]
   \<and> coverCount (map suggestionSpan [toSuggestion 1000 0 500]) 300 = 1
   \<and> coverCount (map suggestionSpan [toSuggestion 1000 0 500]) 600 = 0
   \<and> buildAutoVerticalSlices 1000 100 1900 1200 \<noteq> []
   \<and> coverCount (map sliceSpan (buildAutoVerticalSlices 1000 100 1900 1200)) 1300 = 1"
proof -
  have mg: "suggestMerged demoFrame demoOpts = [\<lparr>istart = 0, iend = 500\<rparr>]"
    unfolding demoOpts_def by (rule demo_merged)
  have f: "frameBounds demoFrame \<noteq> None
      \<and> suggestBodyTop demoFrame demoOpts < suggestBodyBottom demoFrame demoOpts"
    unfolding demoOpts_def demo_body by (simp add: demoFrame_def)
  have in3: "\<exists>iv \<in> set (suggestMerged demoFrame demoOpts). istart iv \<le> 300 \<and> 300 + 7 < iend iv"
    unfolding mg by simp
  have out6: "\<forall>iv \<in> set (suggestMerged demoFrame demoOpts). 600 < istart iv \<or> iend iv \<le> 600"
    unfolding mg by simp
  from auto_slices_cover [where node = demoFrame and opt = demoOpts and row = 300, THEN conjunct2] f in3
  have c3: "coverCount (map suggestionSpan [toSuggestion 1000 0 500]) 300 = 1"
    unfolding demo_suggest(1) by blast
  from auto_slices_cover [where node = demoFrame and opt = demoOpts and row = 600, THEN conjunct2] f out6
  have c6: "coverCount (map suggestionSpan [toSuggestion 1000 0 500]) 600 = 0"
    unfolding demo_suggest(1) by blast
  from auto_slices_cover [where bt = 100 and bb = 1900 and lw = 1000 and m = 1200 and row = 1300,
      THEN conjunct1]
  have a: "buildAutoVerticalSlices 1000 100 1900 1200 \<noteq> []
      \<and> coverCount (map sliceSpan (buildAutoVerticalSlices 1000 100 1900 1200)) 1300 = 1"
    by simp
  from demo_suggest(1) mg c3 c6 a show ?thesis
    by (intro conjI) simp_all
qed

text \<open>
  Claim C9. The maximum slice height in effect is the configured one, rounded and
  floored at 200, and 1200 when none is configured. The suggester always returns, and
  no rectangle it returns is higher than that maximum; a rectangle that is shorter ends
  where a merged interval ends, so that it is the last one cut from that interval. The
  rectangles of the backend's \<^verbatim>\<open>buildAutoVerticalSlices\<close> are no higher than the
  maximum either, and all but the last are exactly that high; so are the chunks that
  \<^verbatim>\<open>splitByMaxHeight\<close> cuts from one interval.
\<close>

theorem slice_height_bounded:
  "(\<exists>ss. suggestSlices node opt = Some ss
      \<and> (\<forall>s \<in> set ss.
            rect_height (srect s)
              \<le> (case optMaxSliceHeight opt of None \<Rightarrow> 1200 | Some v \<Rightarrow> max 200 (round_js v))
            \<and> (rect_height (srect s)
                  = (case optMaxSliceHeight opt of None \<Rightarrow> 1200 | Some v \<Rightarrow> max 200 (round_js v))
                \<or> (\<exists>iv \<in> set (suggestMerged node opt).
                      rect_y (srect s) + rect_height (srect s) = iend iv))))
   \<and> (\<forall>s \<in> set (buildAutoVerticalSlices lw bt bb m).
         height s \<le> (if m = 0 then 1200 else max 200 (round_js m)))
   \<and> (\<forall>s \<in> set (butlast (buildAutoVerticalSlices lw bt bb m)).
         height s = (if m = 0 then 1200 else max 200 (round_js m)))
   \<and> (0 < maxH \<longrightarrow>
        (\<exists>chunks. splitByMaxHeight iv maxH = Some chunks
           \<and> (\<forall>c \<in> set chunks. iend c - istart c \<le> maxH)
           \<and> (\<forall>c \<in> set (butlast chunks). iend c - istart c = maxH)))"
proof -
  define mx where "mx = (case optMaxSliceHeight opt of None \<Rightarrow> 1200 | Some v \<Rightarrow> max 200 (round_js v))"
  have mx: "suggestMaxHeight opt = mx"
    by (simp add: mx_def suggestMaxHeight_def toInt_def split: option.splits)
  have q8: "8 \<le> suggestMaxHeight opt"
    using suggestMaxHeight_pos [of opt] by linarith
  have sm: "safeMaxOf m = (if m = 0 then 1200 else max 200 (round_js m))"
    by (simp add: safeMaxOf_def round_js_def)
  have s: "\<exists>ss. suggestSlices node opt = Some ss
      \<and> (\<forall>s \<in> set ss. rect_height (srect s) \<le> mx
            \<and> (rect_height (srect s) = mx
                \<or> (\<exists>iv \<in> set (suggestMerged node opt).
                      rect_y (srect s) + rect_height (srect s) = iend iv)))"
  proof (cases "frameBounds node")
    case None
    then show ?thesis by (simp add: suggestSlices_def)
  next
    case (Some fb)
    show ?thesis
    proof (cases "suggestBodyTop node opt < suggestBodyBottom node opt")
      case False
      with Some show ?thesis by (simp add: suggestSlices_def Let_def)
    next
      case True
      define out where "out =
        (if keptChunks (suggestMaxHeight opt) (suggestMerged node opt) = []
         then tiles (suggestMaxHeight opt) (suggestBodyBottom node opt) (suggestBodyTop node opt)
         else keptChunks (suggestMaxHeight opt) (suggestMerged node opt))"
      have r: "suggestSlices node opt =
          Some (map (\<lambda>(y, h). toSuggestion (round_js (nodeWidth node)) y h) out)"
        unfolding out_def by (rule suggestSlices_out [OF Some True])
      have "rect_height (srect s) \<le> mx
            \<and> (rect_height (srect s) = mx
                \<or> (\<exists>iv \<in> set (suggestMerged node opt).
                      rect_y (srect s) + rect_height (srect s) = iend iv))"
        if "s \<in> set (map (\<lambda>(y, h). toSuggestion (round_js (nodeWidth node)) y h) out)" for s
      proof -
        from that obtain y h where o: "(y, h) \<in> set out"
          and e: "s = toSuggestion (round_js (nodeWidth node)) y h"
          by auto
        from out_inside [OF q8 suggestIntervals_cases [OF Some] o [unfolded out_def suggestMerged_def]]
        obtain iv :: interval where "iv \<in> set (suggestMerged node opt)"
          and "h \<le> suggestMaxHeight opt" and "h = suggestMaxHeight opt \<or> y + h = iend iv"
          unfolding suggestMerged_def by blast
        then show ?thesis
          unfolding e mx by (auto simp: toSuggestion_def)
      qed
      with r show ?thesis by blast
    qed
  qed
  have tl: "buildAutoVerticalSlices lw bt bb m =
      map (\<lambda>(y, h). \<lparr>sx = 0, sy = y, width = lw, height = h, url = [], label = [], alt = []\<rparr>)
        (tiles (safeMaxOf m) bb bt)"
    by (simp add: buildAutoVerticalSlices_def autoLoop_tiles)
  have a: "\<forall>s \<in> set (buildAutoVerticalSlices lw bt bb m). height s \<le> safeMaxOf m"
    unfolding tl using tiles_height [of _ _ "safeMaxOf m" bb bt] by auto
  have l: "\<forall>s \<in> set (butlast (buildAutoVerticalSlices lw bt bb m)). height s = safeMaxOf m"
    unfolding tl map_butlast [symmetric] using tiles_butlast [of _ _ "safeMaxOf m" bb bt] by auto
  have c: "0 < maxH \<longrightarrow>
        (\<exists>chunks. splitByMaxHeight iv maxH = Some chunks
           \<and> (\<forall>c \<in> set chunks. iend c - istart c \<le> maxH)
           \<and> (\<forall>c \<in> set (butlast chunks). iend c - istart c = maxH))"
  proof
    assume p: "0 < maxH"
    let ?chunks = "map (\<lambda>(y, h). \<lparr>istart = y, iend = y + h\<rparr>) (tiles maxH (iend iv) (istart iv))"
    have 1: "splitByMaxHeight iv maxH = Some ?chunks"
      by (rule splitByMaxHeight_tiles [OF p])
    have 2: "\<forall>c \<in> set ?chunks. iend c - istart c \<le> maxH"
      using tiles_height [of _ _ maxH "iend iv" "istart iv"] by auto
    have 3: "\<forall>c \<in> set (butlast ?chunks). iend c - istart c = maxH"
      unfolding map_butlast [symmetric] using tiles_butlast [of _ _ maxH "iend iv" "istart iv"] by auto
    from 1 2 3 show "\<exists>chunks. splitByMaxHeight iv maxH = Some chunks
           \<and> (\<forall>c \<in> set chunks. iend c - istart c \<le> maxH)
           \<and> (\<forall>c \<in> set (butlast chunks). iend c - istart c = maxH)"
      by blast
  qed
  from s a l c show ?thesis
    unfolding mx_def [symmetric] sm [symmetric] by (intro conjI)
qed

theorem slice_height_bounded_witness:
  "suggestSlices demoFrame
      \<lparr>optHeaderHeight = None, optFooterHeight = None, optMaxSliceHeight = Some 300\<rparr> =
     Some [toSuggestion 1000 0 300, toSuggestion 1000 300 200]
   \<and> rect_height (srect (toSuggestion 1000 300 200)) \<le> 300
   \<and> buildAutoVerticalSlices 1000 100 800 300 =
       [demoSlice 100 300, demoSlice 400 300, demoSlice 700 100]
   \<and> height (demoSlice 700 100) \<le> 300
   \<and> height (demoSlice 400 300) = 300
   \<and> splitByMaxHeight \<lparr>istart = 0, iend = 2500\<rparr> 1200 =
       Some [\<lparr>istart = 0, iend = 1200\<rparr>, \<lparr>istart = 1200, iend = 2400\<rparr>,
             \<lparr>istart = 2400, iend = 2500\<rparr>]
   \<and> iend \<lparr>istart = 2400, iend = 2500\<rparr> - istart \<lparr>istart = 2400, iend = 2500\<rparr> \<le> 1200"
proof -
  let ?opt = "\<lparr>optHeaderHeight = None, optFooterHeight = None, optMaxSliceHeight = Some 300\<rparr>"
  have v: "safeMaxOf 300 = 300"
    by (simp add: safeMaxOf_def round_js_def)
  have k: "tiles 300 800 100 = [(100, 300), (400, 300), (700, 100)]"
    by (simp add: tiles.simps)
  have b: "buildAutoVerticalSlices 1000 100 800 300 =
      [demoSlice 100 300, demoSlice 400 300, demoSlice 700 100]"
    by (simp add: buildAutoVerticalSlices_def autoLoop_tiles v k demoSlice_def)
  note inst = slice_height_bounded [where node = demoFrame and opt = ?opt and lw = 1000
      and bt = 100 and bb = 800 and m = 300 and iv = "\<lparr>istart = 0, iend = 2500\<rparr>"
      and maxH = 1200]
  from inst [THEN conjunct1]
  have "rect_height (srect (toSuggestion 1000 300 200)) \<le> max 200 (round_js 300)"
    unfolding demo_suggest(2) by simp
  then have sh: "rect_height (srect (toSuggestion 1000 300 200)) \<le> 300"
    by (simp add: round_js_def)
  from inst [THEN conjunct2, THEN conjunct1]
  have "height (demoSlice 700 100) \<le> max 200 (round_js 300)"
    unfolding b by simp
  then have le: "height (demoSlice 700 100) \<le> 300"
    by (simp add: round_js_def)
  from inst [THEN conjunct2, THEN conjunct2, THEN conjunct1]
  have "height (demoSlice 400 300) = max 200 (round_js 300)"
    unfolding b by simp
  then have eq: "height (demoSlice 400 300) = 300"
    by (simp add: round_js_def)
  have t: "tiles 1200 2500 0 = [(0, 1200), (1200, 1200), (2400, 100)]"
    by (simp add: tiles.simps)
  have sp: "splitByMaxHeight \<lparr>istart = 0, iend = 2500\<rparr> 1200 =
       Some [\<lparr>istart = 0, iend = 1200\<rparr>, \<lparr>istart = 1200, iend = 2400\<rparr>,
             \<lparr>istart = 2400, iend = 2500\<rparr>]"
    by (simp add: splitByMaxHeight_tiles t)
  from inst [THEN conjunct2, THEN conjunct2, THEN conjunct2]
  have "\<forall>c \<in> set [\<lparr>istart = 0, iend = 1200\<rparr>, \<lparr>istart = 1200, iend = 2400\<rparr>,
             \<lparr>istart = 2400, iend = 2500\<rparr>]. iend c - istart c \<le> 1200"
    unfolding sp by simp
  then have ch: "iend \<lparr>istart = 2400, iend = 2500\<rparr> - istart \<lparr>istart = 2400, iend = 2500\<rparr> \<le> 1200"
    by simp
  from demo_suggest(2) sh b le eq sp ch show ?thesis
    by (intro conjI)
qed

section \<open>Account identifiers and credentials\<close>

lemmas char_eval =
  accountChar_def envKeyChar_def toLowerChar_def toUpperChar_def isDigit_def isWhiteSpace_def
  code_def char_of_def bit_Suc_0_iff

lemma ws_not_account: "isWhiteSpace c \<Longrightarrow> \<not> accountChar (toLowerChar c)"
  by (auto simp: isWhiteSpace_def accountChar_def toLowerChar_def isDigit_def code_def)

lemma filter_dropWhile_absorb:
  "(\<And>x. W x \<Longrightarrow> \<not> P x) \<Longrightarrow> filter P (dropWhile W xs) = filter P xs"
  by (induction xs) auto

lemma filter_trim:
  assumes "\<And>x. isWhiteSpace x \<Longrightarrow> \<not> P x"
  shows "filter P (trim s) = filter P s"
proof -
  have "filter P (trim s) = rev (filter P (dropWhile isWhiteSpace (rev (dropWhile isWhiteSpace s))))"
    by (simp add: trim_def rev_filter)
  also have "\<dots> = rev (filter P (rev (dropWhile isWhiteSpace s)))"
    using assms by (simp add: filter_dropWhile_absorb)
  also have "\<dots> = filter P (dropWhile isWhiteSpace s)"
    by (simp add: rev_filter)
  also have "\<dots> = filter P s"
    using assms by (simp add: filter_dropWhile_absorb)
  finally show ?thesis .
qed

lemma normalizeAccountId_filter:
  "normalizeAccountId raw = filter accountChar (map toLowerChar raw)"
  by (simp add: normalizeAccountId_def filter_map filter_trim ws_not_account)

text \<open>
  Claim C2, as stated, at its own example: the identifier \<^verbatim>\<open>"ACME Corp!"\<close> is not
  normalized to \<^verbatim>\<open>"acme-corp"\<close>. The space is outside \<^verbatim>\<open>[a-z0-9_-]\<close> and is
  removed like the exclamation mark; nothing puts a hyphen in its place.
\<close>

theorem normalizeAccountId_acme_counterexample:
  "normalizeAccountId ''ACME Corp!'' \<noteq> ''acme-corp''"
  by (simp add: normalizeAccountId_filter char_eval)

text \<open>
  Claim C2, amended. Normalization lowercases the raw identifier and keeps exactly its
  characters in \<^verbatim>\<open>[a-z0-9_-]\<close> (the trimming of white space changes nothing, white
  space being removed anyway), so every character of the result is in that class. On
  \<^verbatim>\<open>"ACME Corp!"\<close> it produces \<^verbatim>\<open>"acmecorp"\<close>, and the lookup is then decided by the
  binding key \<^verbatim>\<open>KLAVIYO_API_KEY_ACMECORP\<close> alone: its value is the credential, and
  without it the lookup fails.
\<close>

theorem normalizeAccountId_lowercase_strip:
  "normalizeAccountId raw = filter accountChar (map toLowerChar raw)
   \<and> (\<forall>c \<in> set (normalizeAccountId raw). accountChar c)
   \<and> normalizeAccountId ''ACME Corp!'' = ''acmecorp''
   \<and> resolveApiKey env ''ACME Corp!'' =
       (case truthy env ''KLAVIYO_API_KEY_ACMECORP'' of
          Some k \<Rightarrow> Inr \<lparr>accountId = ''acmecorp'', apiKey = k, source = ''KLAVIYO_API_KEY_ACMECORP''\<rparr>
        | None \<Rightarrow> Inl (missingKeyError ''acmecorp'' ''KLAVIYO_API_KEY_ACMECORP''))"
proof -
  have n: "normalizeAccountId ''ACME Corp!'' = ''acmecorp''"
    by (simp add: normalizeAccountId_filter char_eval)
  have k: "accountEnvKey ''acmecorp'' = ''KLAVIYO_API_KEY_ACMECORP''"
    by (simp add: accountEnvKey_def char_eval)
  have r: "resolveApiKey env ''ACME Corp!'' =
       (case truthy env ''KLAVIYO_API_KEY_ACMECORP'' of
          Some k \<Rightarrow> Inr \<lparr>accountId = ''acmecorp'', apiKey = k, source = ''KLAVIYO_API_KEY_ACMECORP''\<rparr>
        | None \<Rightarrow> Inl (missingKeyError ''acmecorp'' ''KLAVIYO_API_KEY_ACMECORP''))"
    unfolding resolveApiKey_def Let_def n k by (simp split: option.splits)
  have f: "normalizeAccountId raw = filter accountChar (map toLowerChar raw)"
    by (rule normalizeAccountId_filter)
  have c: "\<forall>c \<in> set (normalizeAccountId raw). accountChar c"
    unfolding f by simp
  from f c n r show ?thesis
    by blast
qed

theorem normalizeAccountId_lowercase_strip_witness:
  "normalizeAccountId '' Team_A-1 (EU)'' = ''team_a-1eu''
   \<and> accountChar CHR ''t''
   \<and> resolveApiKey [''KLAVIYO_API_KEY_ACMECORP'' \<mapsto> ''pk_1''] ''ACME Corp!'' =
       Inr \<lparr>accountId = ''acmecorp'', apiKey = ''pk_1'', source = ''KLAVIYO_API_KEY_ACMECORP''\<rparr>"
proof -
  have a: "filter accountChar (map toLowerChar '' Team_A-1 (EU)'') = ''team_a-1eu''"
    by (simp add: char_eval)
  have b: "truthy [''KLAVIYO_API_KEY_ACMECORP'' \<mapsto> ''pk_1''] ''KLAVIYO_API_KEY_ACMECORP'' = Some ''pk_1''"
    by (simp add: truthy_def)
  have c: "accountChar CHR ''t''"
    by (simp add: char_eval)
  note inst = normalizeAccountId_lowercase_strip
      [of "'' Team_A-1 (EU)''" "[''KLAVIYO_API_KEY_ACMECORP'' \<mapsto> ''pk_1'']"]
  have n: "normalizeAccountId '' Team_A-1 (EU)'' = ''team_a-1eu''"
    using inst [THEN conjunct1] a by (rule trans)
  have r: "resolveApiKey [''KLAVIYO_API_KEY_ACMECORP'' \<mapsto> ''pk_1''] ''ACME Corp!'' =
       Inr \<lparr>accountId = ''acmecorp'', apiKey = ''pk_1'', source = ''KLAVIYO_API_KEY_ACMECORP''\<rparr>"
    using inst [THEN conjunct2, THEN conjunct2, THEN conjunct2] unfolding b by simp
  from n c r show ?thesis
    by blast
qed

text \<open>
  Claim C3. The precedence of \<^verbatim>\<open>resolveApiKey\<close>, with \<open>acct\<close> the normalized identifier:
  \<^item> \<open>acct\<close> not empty: the credential is the value of the binding key of \<open>acct\<close>; when that
    key is unset or empty the lookup fails, whatever else is configured, and the error
    message ends with the expected binding key;
  \<^item> \<open>acct\<close> empty: the default credential (\<^verbatim>\<open>KLAVIYO_API_KEY\<close>, else
    \<^verbatim>\<open>KLAVIYO_PRIVATE_KEY\<close>) when there is one; else the binding of the first configured
    account; else the lookup fails.
  Every successful lookup returns one credential: the non-empty value the environment
  holds under the key named as its source.
\<close>

theorem resolveApiKey_precedence:
  "(normalizeAccountId raw \<noteq> [] \<and> truthy env (accountEnvKey (normalizeAccountId raw)) = Some k \<longrightarrow>
      resolveApiKey env raw =
        Inr \<lparr>accountId = normalizeAccountId raw, apiKey = k,
             source = accountEnvKey (normalizeAccountId raw)\<rparr>)
   \<and> (normalizeAccountId raw \<noteq> [] \<and> truthy env (accountEnvKey (normalizeAccountId raw)) = None \<longrightarrow>
      resolveApiKey env raw =
        Inl (missingKeyError (normalizeAccountId raw) (accountEnvKey (normalizeAccountId raw)))
      \<and> suffix (accountEnvKey (normalizeAccountId raw))
           (missingKeyError (normalizeAccountId raw) (accountEnvKey (normalizeAccountId raw))))
   \<and> (normalizeAccountId raw = [] \<and> truthy env ''KLAVIYO_API_KEY'' = Some k \<longrightarrow>
      resolveApiKey env raw =
        Inr \<lparr>accountId = ''default'', apiKey = k, source = ''KLAVIYO_API_KEY''\<rparr>)
   \<and> (normalizeAccountId raw = [] \<and> truthy env ''KLAVIYO_API_KEY'' = None
        \<and> truthy env ''KLAVIYO_PRIVATE_KEY'' = Some k \<longrightarrow>
      resolveApiKey env raw =
        Inr \<lparr>accountId = ''default'', apiKey = k, source = ''KLAVIYO_PRIVATE_KEY''\<rparr>)
   \<and> (normalizeAccountId raw = [] \<and> truthy env ''KLAVIYO_API_KEY'' = None
        \<and> truthy env ''KLAVIYO_PRIVATE_KEY'' = None
        \<and> readConfiguredAccounts env = first # others
        \<and> truthy env (accountEnvKey first) = Some k \<longrightarrow>
      resolveApiKey env raw =
        Inr \<lparr>accountId = first, apiKey = k, source = accountEnvKey first\<rparr>)
   \<and> (normalizeAccountId raw = [] \<and> truthy env ''KLAVIYO_API_KEY'' = None
        \<and> truthy env ''KLAVIYO_PRIVATE_KEY'' = None
        \<and> (readConfiguredAccounts env = []
            \<or> readConfiguredAccounts env = first # others \<and> truthy env (accountEnvKey first) = None) \<longrightarrow>
      resolveApiKey env raw = Inl noKeyError)
   \<and> (resolveApiKey env raw = Inr c \<longrightarrow> env (source c) = Some (apiKey c) \<and> apiKey c \<noteq> [])"
proof -
  have t: "truthy env n = Some v \<Longrightarrow> env n = Some v \<and> v \<noteq> []" for n v
    by (auto simp: truthy_def split: option.splits if_splits)
  have s: "resolveApiKey env raw = Inr c \<longrightarrow> env (source c) = Some (apiKey c) \<and> apiKey c \<noteq> []"
  proof (cases "normalizeAccountId raw = []")
    case False
    then show ?thesis
      by (cases "truthy env (accountEnvKey (normalizeAccountId raw))")
         (auto simp: resolveApiKey_def Let_def dest: t)
  next
    case True
    show ?thesis
    proof (cases "truthy env ''KLAVIYO_API_KEY''")
      case (Some a)
      with True show ?thesis
        by (auto simp: resolveApiKey_def Let_def dest: t)
    next
      case None
      note n1 = this
      show ?thesis
      proof (cases "truthy env ''KLAVIYO_PRIVATE_KEY''")
        case (Some a)
        with True n1 show ?thesis
          by (auto simp: resolveApiKey_def Let_def dest: t)
      next
        case None
        show ?thesis
        proof (cases "readConfiguredAccounts env")
          case Nil
          with True n1 None show ?thesis
            by (simp add: resolveApiKey_def Let_def)
        next
          case (Cons f fs)
          with True n1 None show ?thesis
            by (cases "truthy env (accountEnvKey f)")
               (auto simp: resolveApiKey_def Let_def dest: t)
        qed
      qed
    qed
  qed
  have m: "suffix e (missingKeyError a e)" for a e
    unfolding missingKeyError_def by (intro suffix_appendI) simp
  have c1: "normalizeAccountId raw \<noteq> [] \<and> truthy env (accountEnvKey (normalizeAccountId raw)) = Some k \<longrightarrow>
      resolveApiKey env raw =
        Inr \<lparr>accountId = normalizeAccountId raw, apiKey = k,
             source = accountEnvKey (normalizeAccountId raw)\<rparr>"
    by (simp add: resolveApiKey_def Let_def)
  have c2: "normalizeAccountId raw \<noteq> [] \<and> truthy env (accountEnvKey (normalizeAccountId raw)) = None \<longrightarrow>
      resolveApiKey env raw =
        Inl (missingKeyError (normalizeAccountId raw) (accountEnvKey (normalizeAccountId raw)))
      \<and> suffix (accountEnvKey (normalizeAccountId raw))
           (missingKeyError (normalizeAccountId raw) (accountEnvKey (normalizeAccountId raw)))"
    using m by (simp add: resolveApiKey_def Let_def)
  have c3: "normalizeAccountId raw = [] \<and> truthy env ''KLAVIYO_API_KEY'' = Some k \<longrightarrow>
      resolveApiKey env raw =
        Inr \<lparr>accountId = ''default'', apiKey = k, source = ''KLAVIYO_API_KEY''\<rparr>"
    by (simp add: resolveApiKey_def Let_def)
  have c4: "normalizeAccountId raw = [] \<and> truthy env ''KLAVIYO_API_KEY'' = None
        \<and> truthy env ''KLAVIYO_PRIVATE_KEY'' = Some k \<longrightarrow>
      resolveApiKey env raw =
        Inr \<lparr>accountId = ''default'', apiKey = k, source = ''KLAVIYO_PRIVATE_KEY''\<rparr>"
    by (simp add: resolveApiKey_def Let_def)
  have c5: "normalizeAccountId raw = [] \<and> truthy env ''KLAVIYO_API_KEY'' = None
        \<and> truthy env ''KLAVIYO_PRIVATE_KEY'' = None
        \<and> readConfiguredAccounts env = first # others
        \<and> truthy env (accountEnvKey first) = Some k \<longrightarrow>
      resolveApiKey env raw =
        Inr \<lparr>accountId = first, apiKey = k, source = accountEnvKey first\<rparr>"
    by (simp add: resolveApiKey_def Let_def)
  have c6: "normalizeAccountId raw = [] \<and> truthy env ''KLAVIYO_API_KEY'' = None
        \<and> truthy env ''KLAVIYO_PRIVATE_KEY'' = None
        \<and> (readConfiguredAccounts env = []
            \<or> readConfiguredAccounts env = first # others \<and> truthy env (accountEnvKey first) = None) \<longrightarrow>
      resolveApiKey env raw = Inl noKeyError"
    by (auto simp: resolveApiKey_def Let_def)
  show ?thesis
    by (rule conjI c1 c2 c3 c4 c5 c6 s)+
qed

theorem resolveApiKey_precedence_witness:
  "resolveApiKey [''KLAVIYO_API_KEY'' \<mapsto> ''pk_default'', ''KLAVIYO_API_KEY_ACME'' \<mapsto> ''pk_acme'']
      ''Acme'' = Inr \<lparr>accountId = ''acme'', apiKey = ''pk_acme'', source = ''KLAVIYO_API_KEY_ACME''\<rparr>
   \<and> resolveApiKey [''KLAVIYO_API_KEY'' \<mapsto> ''pk_default''] ''Acme'' =
        Inl (missingKeyError ''acme'' ''KLAVIYO_API_KEY_ACME'')
   \<and> resolveApiKey [''KLAVIYO_API_KEY'' \<mapsto> ''pk_default'', ''KLAVIYO_API_KEY_ACME'' \<mapsto> ''pk_acme'']
        '' !'' = Inr \<lparr>accountId = ''default'', apiKey = ''pk_default'', source = ''KLAVIYO_API_KEY''\<rparr>
   \<and> resolveApiKey [''KLAVIYO_ACCOUNTS'' \<mapsto> ''Beta, acme'', ''KLAVIYO_API_KEY_BETA'' \<mapsto> ''pk_beta'',
         ''KLAVIYO_API_KEY_ACME'' \<mapsto> ''pk_acme''] [] =
        Inr \<lparr>accountId = ''beta'', apiKey = ''pk_beta'', source = ''KLAVIYO_API_KEY_BETA''\<rparr>
   \<and> resolveApiKey [''KLAVIYO_ACCOUNTS'' \<mapsto> ''Beta, acme'', ''KLAVIYO_API_KEY_ACME'' \<mapsto> ''pk_acme''] [] =
        Inl noKeyError"
proof -
  let ?e1 = "[''KLAVIYO_API_KEY'' \<mapsto> ''pk_default'', ''KLAVIYO_API_KEY_ACME'' \<mapsto> ''pk_acme'']"
  let ?e2 = "[''KLAVIYO_API_KEY'' \<mapsto> ''pk_default'']"
  let ?e4 = "[''KLAVIYO_ACCOUNTS'' \<mapsto> ''Beta, acme'', ''KLAVIYO_API_KEY_BETA'' \<mapsto> ''pk_beta'',
         ''KLAVIYO_API_KEY_ACME'' \<mapsto> ''pk_acme'']"
  let ?e5 = "[''KLAVIYO_ACCOUNTS'' \<mapsto> ''Beta, acme'', ''KLAVIYO_API_KEY_ACME'' \<mapsto> ''pk_acme'']"
  have n1: "normalizeAccountId ''Acme'' = ''acme''"
    by (simp add: normalizeAccountId_filter char_eval)
  have n3: "normalizeAccountId '' !'' = []"
    by (simp add: normalizeAccountId_filter char_eval)
  have n0: "normalizeAccountId [] = []"
    by (simp add: normalizeAccountId_filter)
  have k1: "accountEnvKey ''acme'' = ''KLAVIYO_API_KEY_ACME''"
    by (simp add: accountEnvKey_def char_eval)
  have k4: "accountEnvKey ''beta'' = ''KLAVIYO_API_KEY_BETA''"
    by (simp add: accountEnvKey_def char_eval)
  have s: "splitOn CHR '','' ''Beta, acme'' = [''Beta'', '' acme'']"
    by simp
  have nb: "normalizeAccountId ''Beta'' = ''beta''"
    by (simp add: normalizeAccountId_filter char_eval)
  have na: "normalizeAccountId '' acme'' = ''acme''"
    by (simp add: normalizeAccountId_filter char_eval)
  have r4: "readConfiguredAccounts ?e4 = [''beta'', ''acme'']"
    by (simp add: readConfiguredAccounts_def s nb na uniq_def)
  have r5: "readConfiguredAccounts ?e5 = [''beta'', ''acme'']"
    by (simp add: readConfiguredAccounts_def s nb na uniq_def)
  have a: "resolveApiKey ?e1 ''Acme'' =
      Inr \<lparr>accountId = ''acme'', apiKey = ''pk_acme'', source = ''KLAVIYO_API_KEY_ACME''\<rparr>"
    using resolveApiKey_precedence [of "''Acme''" ?e1 "''pk_acme''", THEN conjunct1]
    by (simp add: n1 k1 truthy_def)
  have b: "resolveApiKey ?e2 ''Acme'' = Inl (missingKeyError ''acme'' ''KLAVIYO_API_KEY_ACME'')"
    using resolveApiKey_precedence [of "''Acme''" ?e2, THEN conjunct2, THEN conjunct1]
    by (simp add: n1 k1 truthy_def)
  have c: "resolveApiKey ?e1 '' !'' =
      Inr \<lparr>accountId = ''default'', apiKey = ''pk_default'', source = ''KLAVIYO_API_KEY''\<rparr>"
    using resolveApiKey_precedence [of "'' !''" ?e1 "''pk_default''",
        THEN conjunct2, THEN conjunct2, THEN conjunct1]
    by (simp add: n3 truthy_def)
  have d: "resolveApiKey ?e4 [] =
      Inr \<lparr>accountId = ''beta'', apiKey = ''pk_beta'', source = ''KLAVIYO_API_KEY_BETA''\<rparr>"
    using resolveApiKey_precedence [of "[]" ?e4 "''pk_beta''" "''beta''" "[''acme'']",
        THEN conjunct2, THEN conjunct2, THEN conjunct2, THEN conjunct2, THEN conjunct1]
    by (simp add: n0 r4 k4 truthy_def)
  have e: "resolveApiKey ?e5 [] = Inl noKeyError"
    using resolveApiKey_precedence [of "[]" ?e5 _ "''beta''" "[''acme'']",
        THEN conjunct2, THEN conjunct2, THEN conjunct2, THEN conjunct2, THEN conjunct2, THEN conjunct1]
    by (simp add: n0 r5 k4 truthy_def)
  from a b c d e show ?thesis
    by blast
qed

section \<open>The rectangle rescaler stays inside the source image\<close>

text \<open>
  Claim C5. For a source image with positive pixel dimensions, the rectangle that
  \<^verbatim>\<open>clampExtractRect\<close> hands to the extraction lies inside the image: its left and top
  are not negative, its width and height are at least 1, and left + width and
  top + height do not exceed the source width and height. This holds for every scale
  factor and every logical rectangle, so in particular for a scale factor of at least 1
  and a rectangle inside the logical frame.
\<close>

theorem clampExtractRect_inside:
  assumes "0 < sw" and "0 < sh"
  shows "0 \<le> e_left (clampExtractRect r pr sw sh)
       \<and> 0 \<le> e_top (clampExtractRect r pr sw sh)
       \<and> 1 \<le> e_width (clampExtractRect r pr sw sh)
       \<and> 1 \<le> e_height (clampExtractRect r pr sw sh)
       \<and> e_left (clampExtractRect r pr sw sh)
           + e_width (clampExtractRect r pr sw sh) \<le> sw
       \<and> e_top (clampExtractRect r pr sw sh)
           + e_height (clampExtractRect r pr sw sh) \<le> sh"
  using assms unfolding clampExtractRect_def Let_def clamp_def
  by (simp add: max_def min_def)

theorem clampExtractRect_inside_witness:
  "clampExtractRect \<lparr>sx = 0, sy = 1300, width = 1000, height = 600, url = [], label = [], alt = []\<rparr>
     2 1999 3799 = \<lparr>e_left = 0, e_top = 2600, e_width = 1999, e_height = 1199\<rparr>
   \<and> 2600 + 1199 \<le> (3799 :: int)"
  using clampExtractRect_inside [of 1999 3799
    "\<lparr>sx = 0, sy = 1300, width = 1000, height = 600, url = [], label = [], alt = []\<rparr>" 2]
  by (simp add: clampExtractRect_def Let_def clamp_def px_def round_js_def)

section \<open>The quality search of the compressor\<close>

lemma jpegSearch_count:
  "n \<le> fst (jpegSearch enc t m q best n)
   \<and> fst (jpegSearch enc t m q best n) \<le> n + nat ((max (q - m) 0 + 4) div 5)"
proof (induction enc t m q best n rule: jpegSearch.induct)
  case (1 enc t m q best n)
  have unf: "jpegSearch enc t m q best n =
     (if int (length best) > t \<and> q > m
      then (case enc (q - 5) of
              Inl e \<Rightarrow> (Suc n, Inl e)
            | Inr b \<Rightarrow> jpegSearch enc t m (q - 5) b (Suc n))
      else (n, Inr (q, best)))"
    by (rule jpegSearch.simps)
  show ?case
  proof (cases "int (length best) > t \<and> q > m")
    case False
    then show ?thesis
      unfolding unf by auto
  next
    case True
    then have step: "1 + nat ((max (q - 5 - m) 0 + 4) div 5) \<le> nat ((max (q - m) 0 + 4) div 5)"
      by (simp add: max_def) linarith
    show ?thesis
    proof (cases "enc (q - 5)")
      case (Inl e)
      with True step show ?thesis
        unfolding unf by simp
    next
      case (Inr b)
      from "1.IH" [OF True Inr] step
      have "n \<le> fst (jpegSearch enc t m (q - 5) b (Suc n))
          \<and> fst (jpegSearch enc t m (q - 5) b (Suc n)) \<le> n + nat ((max (q - m) 0 + 4) div 5)"
        by linarith
      with True Inr show ?thesis
        unfolding unf by simp
    qed
  qed
qed

lemma jpegSearch_trace:
  assumes "enc q = Inr best" and "jpegSearch enc t m q best n = (n', r)"
  shows "n \<le> n'
     \<and> (\<forall>j. int j < int n' - int n \<longrightarrow>
          (\<exists>b. enc (q - 5 * int j) = Inr b \<and> t < int (length b) \<and> m < q - 5 * int j))
     \<and> (case r of
          Inl e \<Rightarrow> n < n' \<and> enc (q - 5 * (int n' - int n)) = Inl e
        | Inr (q', b') \<Rightarrow>
            q' = q - 5 * (int n' - int n) \<and> enc q' = Inr b'
            \<and> (int (length b') \<le> t \<or> q' \<le> m))"
  using assms
proof (induction enc t m q best n rule: jpegSearch.induct)
  case (1 enc t m q best n)
  have unf: "jpegSearch enc t m q best n =
     (if int (length best) > t \<and> q > m
      then (case enc (q - 5) of
              Inl e \<Rightarrow> (Suc n, Inl e)
            | Inr b \<Rightarrow> jpegSearch enc t m (q - 5) b (Suc n))
      else (n, Inr (q, best)))"
    by (rule jpegSearch.simps)
  show ?case
  proof (cases "int (length best) > t \<and> q > m")
    case False
    with "1.prems" show ?thesis
      unfolding unf by auto
  next
    case True
    show ?thesis
    proof (cases "enc (q - 5)")
      case (Inl e)
      with True "1.prems" have r: "n' = Suc n" "r = Inl e"
        unfolding unf by auto
      have "\<forall>j. int j < int n' - int n \<longrightarrow>
          (\<exists>b. enc (q - 5 * int j) = Inr b \<and> t < int (length b) \<and> m < q - 5 * int j)"
      proof (intro allI impI)
        fix j
        assume "int j < int n' - int n"
        then have "j = 0"
          using r(1) by simp
        with True "1.prems"(1)
        show "\<exists>b. enc (q - 5 * int j) = Inr b \<and> t < int (length b) \<and> m < q - 5 * int j"
          by simp
      qed
      with r Inl show ?thesis
        by simp
    next
      case (Inr b)
      with True "1.prems" have rec: "jpegSearch enc t m (q - 5) b (Suc n) = (n', r)"
        unfolding unf by simp
      note ih = "1.IH" [OF True Inr Inr rec]
      from ih have le: "Suc n \<le> n'"
        by simp
      have tr: "\<forall>j. int j < int n' - int n \<longrightarrow>
          (\<exists>b. enc (q - 5 * int j) = Inr b \<and> t < int (length b) \<and> m < q - 5 * int j)"
      proof (intro allI impI)
        fix j
        assume j: "int j < int n' - int n"
        show "\<exists>b. enc (q - 5 * int j) = Inr b \<and> t < int (length b) \<and> m < q - 5 * int j"
        proof (cases j)
          case 0
          with True "1.prems"(1) show ?thesis
            by simp
        next
          case (Suc k)
          with j have "int k < int n' - int (Suc n)"
            by simp
          with ih have "\<exists>b. enc (q - 5 - 5 * int k) = Inr b \<and> t < int (length b)
              \<and> m < q - 5 - 5 * int k"
            by blast
          moreover have "q - 5 - 5 * int k = q - 5 * int j"
            using Suc by simp
          ultimately show ?thesis
            by simp
        qed
      qed
      have e: "q - 5 - 5 * (int n' - int (Suc n)) = q - 5 * (int n' - int n)"
        by simp
      from ih have res: "case r of
          Inl e \<Rightarrow> n < n' \<and> enc (q - 5 * (int n' - int n)) = Inl e
        | Inr (q', b') \<Rightarrow>
            q' = q - 5 * (int n' - int n) \<and> enc q' = Inr b'
            \<and> (int (length b') \<le> t \<or> q' \<le> m)"
        unfolding e by (auto split: sum.splits)
      from le tr res show ?thesis
        by simp
    qed
  qed
qed

text \<open>
  Claim C6, as stated, at a default quality of 80 and a floor of 62, with an encoder whose
  output stays above the byte target: the encoder runs 5 times (at 80, 75, 70, 65 and
  60), which is more than \<open>(80 - 62) / 5 + 1\<close>, both with integer division (4) and with
  exact division (4.6).
\<close>

theorem encodes_bound_counterexample:
  "encodes \<lparr>defaultJpegQuality = 80, minJpegQuality = 62, targetSliceKb = 1\<rparr>
      (demoServices\<lparr>jpeg := \<lambda>b q. Inr (replicate 2000 0)\<rparr>) [7, 8, 9] False = 5
   \<and> \<not> (5 :: int) \<le> (80 - 62) div 5 + 1
   \<and> \<not> (5 :: real) \<le> (80 - 62) / 5 + 1"
  by (simp add: encodes_def compressCounted_def demoServices_def jpegSearch.simps)

text \<open>
  Claim C6, amended. For an opaque region the quality search terminates (the loop is a
  total function: the quality falls by exactly 5 in each iteration and the loop runs
  only above the floor), and the encoder runs at least once and at most
  \<open>1 + \<lceil>max (default - floor) 0 / 5\<rceil>\<close> times; this is \<open>(default - floor) / 5 + 1\<close>
  when the floor is not above the default and 5 divides their difference, as with the
  defaults 80 and 60. The encodings run at the qualities default, default - 5,
  default - 10 and so on, and the search stops as soon as it can: every encoding but the
  last succeeded with a size above the byte target at a quality above the floor. When the
  compression returns, its buffer is the last encoding, at the default lowered by 5 for
  each encoding after the first, and its size is at or under the byte target or its
  quality is no longer above the floor; when it throws, the last encoding threw.
\<close>

theorem encodes_bound:
  "1 \<le> encodes cfg svc sliceBuffer False
   \<and> encodes cfg svc sliceBuffer False
       \<le> 1 + nat ((max (defaultJpegQuality cfg - minJpegQuality cfg) 0 + 4) div 5)
   \<and> (minJpegQuality cfg \<le> defaultJpegQuality cfg
        \<and> 5 dvd (defaultJpegQuality cfg - minJpegQuality cfg) \<longrightarrow>
       int (encodes cfg svc sliceBuffer False)
         \<le> (defaultJpegQuality cfg - minJpegQuality cfg) div 5 + 1)
   \<and> (\<forall>j. int j < int (encodes cfg svc sliceBuffer False) - 1 \<longrightarrow>
        (\<exists>b. jpeg svc sliceBuffer (defaultJpegQuality cfg - 5 * int j) = Inr b
           \<and> targetSliceKb cfg * 1024 < int (length b)
           \<and> minJpegQuality cfg < defaultJpegQuality cfg - 5 * int j))
   \<and> (compressSlice cfg svc sliceBuffer False = Inr c \<longrightarrow>
       mime c = ''image/jpeg''
       \<and> quality c =
           Some (defaultJpegQuality cfg - 5 * (int (encodes cfg svc sliceBuffer False) - 1))
       \<and> jpeg svc sliceBuffer
             (defaultJpegQuality cfg - 5 * (int (encodes cfg svc sliceBuffer False) - 1)) =
           Inr (buf c)
       \<and> (int (length (buf c)) \<le> targetSliceKb cfg * 1024
           \<or> defaultJpegQuality cfg - 5 * (int (encodes cfg svc sliceBuffer False) - 1)
               \<le> minJpegQuality cfg))
   \<and> (compressSlice cfg svc sliceBuffer False = Inl e \<longrightarrow>
       jpeg svc sliceBuffer
         (defaultJpegQuality cfg - 5 * (int (encodes cfg svc sliceBuffer False) - 1)) = Inl e)"
proof -
  let ?d = "defaultJpegQuality cfg" and ?m = "minJpegQuality cfg"
  let ?t = "targetSliceKb cfg * 1024"
  let ?enc = "jpeg svc sliceBuffer"
  let ?n = "encodes cfg svc sliceBuffer False"
  have bounds: "1 \<le> ?n \<and> ?n \<le> 1 + nat ((max (?d - ?m) 0 + 4) div 5)"
  proof (cases "?enc ?d")
    case (Inl e)
    then show ?thesis
      by (simp add: encodes_def compressCounted_def)
  next
    case (Inr first)
    obtain k r where j: "jpegSearch ?enc ?t ?m ?d first 1 = (k, r)"
      by (cases "jpegSearch ?enc ?t ?m ?d first 1")
    have n: "?n = k"
      using Inr j by (simp add: encodes_def compressCounted_def split: sum.splits prod.splits)
    from jpegSearch_count [of 1 ?enc ?t ?m ?d first]
    show ?thesis
      unfolding n j by simp
  qed
  have exact: "?m \<le> ?d \<and> 5 dvd (?d - ?m) \<longrightarrow> int ?n \<le> (?d - ?m) div 5 + 1"
  proof
    assume a: "?m \<le> ?d \<and> 5 dvd (?d - ?m)"
    then have "(max (?d - ?m) 0 + 4) div 5 = (?d - ?m) div 5"
      by (simp add: max_def) presburger
    with bounds a show "int ?n \<le> (?d - ?m) div 5 + 1"
      by simp linarith
  qed
  have rest: "(\<forall>j. int j < int ?n - 1 \<longrightarrow>
        (\<exists>b. ?enc (?d - 5 * int j) = Inr b \<and> ?t < int (length b) \<and> ?m < ?d - 5 * int j))
     \<and> (compressSlice cfg svc sliceBuffer False = Inr c \<longrightarrow>
         mime c = ''image/jpeg''
         \<and> quality c = Some (?d - 5 * (int ?n - 1))
         \<and> ?enc (?d - 5 * (int ?n - 1)) = Inr (buf c)
         \<and> (int (length (buf c)) \<le> ?t \<or> ?d - 5 * (int ?n - 1) \<le> ?m))
     \<and> (compressSlice cfg svc sliceBuffer False = Inl e \<longrightarrow>
         ?enc (?d - 5 * (int ?n - 1)) = Inl e)"
  proof (cases "?enc ?d")
    case (Inl x)
    then have n: "?n = 1" and c: "compressSlice cfg svc sliceBuffer False = Inl x"
      by (simp_all add: encodes_def compressSlice_def compressCounted_def)
    show ?thesis
      unfolding n c using Inl by simp
  next
    case (Inr first)
    obtain k r where j: "jpegSearch ?enc ?t ?m ?d first 1 = (k, r)"
      by (cases "jpegSearch ?enc ?t ?m ?d first 1")
    have n: "?n = k"
      using Inr j by (simp add: encodes_def compressCounted_def split: sum.splits prod.splits)
    note tr = jpegSearch_trace [OF Inr j]
    from tr have tr1: "\<forall>j. int j < int k - 1 \<longrightarrow>
        (\<exists>b. ?enc (?d - 5 * int j) = Inr b \<and> ?t < int (length b) \<and> ?m < ?d - 5 * int j)"
      by simp
    show ?thesis
    proof (cases r)
      case (Inl x)
      have c: "compressSlice cfg svc sliceBuffer False = Inl x"
        using Inr j Inl by (simp add: compressSlice_def compressCounted_def)
      from tr Inl have "?enc (?d - 5 * (int k - 1)) = Inl x"
        by simp
      with tr1 show ?thesis
        unfolding n c by simp
    next
      case (Inr qb)
      obtain q b where qb: "qb = (q, b)"
        by (cases qb)
      have c: "compressSlice cfg svc sliceBuffer False =
          Inr \<lparr>buf = b, mime = ''image/jpeg'', quality = Some q,
               c_originalKb = bytesToKb (length sliceBuffer),
               c_compressedKb = bytesToKb (length b)\<rparr>"
        using \<open>?enc ?d = Inr first\<close> j Inr qb
        by (simp add: compressSlice_def compressCounted_def)
      from tr Inr qb have "q = ?d - 5 * (int k - 1) \<and> ?enc q = Inr b
          \<and> (int (length b) \<le> ?t \<or> q \<le> ?m)"
        by auto
      with tr1 show ?thesis
        unfolding n c by auto
    qed
  qed
  from bounds exact rest show ?thesis
    by (intro conjI) simp_all
qed

theorem encodes_bound_witness:
  "encodes demoConfig (demoServices\<lparr>jpeg := \<lambda>b q. Inr (replicate (nat q * 3500) 0)\<rparr>)
      [7, 8, 9] False = 3
   \<and> (minJpegQuality demoConfig \<le> defaultJpegQuality demoConfig
       \<and> 5 dvd (defaultJpegQuality demoConfig - minJpegQuality demoConfig))
   \<and> (3 :: int) \<le> (80 - 60) div 5 + 1
   \<and> (\<exists>b. jpeg (demoServices\<lparr>jpeg := \<lambda>b q. Inr (replicate (nat q * 3500) 0)\<rparr>) [7, 8, 9] 75 = Inr b
         \<and> 250 * 1024 < int (length b))"
proof -
  let ?svc = "demoServices\<lparr>jpeg := \<lambda>b q. Inr (replicate (nat q * 3500) 0)\<rparr>"
  have n: "encodes demoConfig ?svc [7, 8, 9] False = 3"
    by (simp add: encodes_def compressCounted_def demoServices_def demoConfig_def jpegSearch.simps)
  have h: "minJpegQuality demoConfig \<le> defaultJpegQuality demoConfig
       \<and> 5 dvd (defaultJpegQuality demoConfig - minJpegQuality demoConfig)"
    by (simp add: demoConfig_def)
  note inst = encodes_bound [of demoConfig ?svc "[7, 8, 9]"]
  from inst [THEN conjunct2, THEN conjunct2, THEN conjunct1] h
  have "int (encodes demoConfig ?svc [7, 8, 9] False)
         \<le> (defaultJpegQuality demoConfig - minJpegQuality demoConfig) div 5 + 1"
    by blast
  then have b: "(3 :: int) \<le> (80 - 60) div 5 + 1"
    unfolding n by (simp add: demoConfig_def)
  have "int (Suc 0) < int (encodes demoConfig ?svc [7, 8, 9] False) - 1"
    unfolding n by simp
  with inst [THEN conjunct2, THEN conjunct2, THEN conjunct2, THEN conjunct1]
  have "\<exists>b. jpeg ?svc [7, 8, 9] (defaultJpegQuality demoConfig - 5 * int (Suc 0)) = Inr b
      \<and> targetSliceKb demoConfig * 1024 < int (length b)
      \<and> minJpegQuality demoConfig < defaultJpegQuality demoConfig - 5 * int (Suc 0)"
    by blast
  then have e: "\<exists>b. jpeg ?svc [7, 8, 9] 75 = Inr b \<and> 250 * 1024 < int (length b)"
    by (simp add: demoConfig_def)
  from n h b e show ?thesis
    by blast
qed

section \<open>The manual slice normalizer\<close>

lemma round_js_of_int: "round_js (real_of_int n) = n"
  unfolding round_js_def by linarith

lemma safeUrl_idem: "safeUrl (safeUrl u) = safeUrl u"
  by (simp add: safeUrl_def startsWithNoCase_def)

lemma normalize_in_bounds:
  assumes "0 \<le> x" and "2 \<le> w" and "x + w \<le> lw" and "bt \<le> y" and "2 \<le> h" and "y + h \<le> bb"
  shows "normalizeManualRectSlices lw lh bt bb
           (Some \<lparr>rect = Some \<lparr>rx = real_of_int x, ry = real_of_int y,
                                 rwidth = real_of_int w, rheight = real_of_int h\<rparr>,
                  murl = u, mlabel = l, malt = a\<rparr> # rest) =
         \<lparr>sx = x, sy = y, width = w, height = h, url = safeUrl u, label = l, alt = a\<rparr>
           # normalizeManualRectSlices lw lh bt bb rest"
proof -
  have x: "clamp x 0 (max 0 (lw - 1)) = x"
    using assms by (simp add: clamp_def)
  have y: "clamp y bt (max bt (bb - 1)) = y"
    using assms by (simp add: clamp_def)
  have w: "clamp w 1 (max 1 (lw - x)) = w"
    using assms by (simp add: clamp_def)
  have h: "clamp h 1 (max 1 (bb - y)) = h"
    using assms by (simp add: clamp_def)
  show ?thesis
    using assms(2,5) by (simp add: round_js_of_int Let_def x y w h)
qed

text \<open>
  Claim C7. A rectangle with integer coordinates that lies inside the frame and the body
  region and is at least 2 pixels wide and high is kept as it is by the normalizer (only
  its URL is filtered), and normalizing the result once more, sent again under
  \<^verbatim>\<open>rect\<close>, yields the same rectangle as normalizing once.
\<close>

theorem normalizeManualRectSlices_idempotent:
  assumes "0 \<le> x" and "2 \<le> w" and "x + w \<le> lw" and "bt \<le> y" and "2 \<le> h" and "y + h \<le> bb"
  shows "normalizeManualRectSlices lw lh bt bb
           [Some \<lparr>rect = Some \<lparr>rx = real_of_int x, ry = real_of_int y,
                                 rwidth = real_of_int w, rheight = real_of_int h\<rparr>,
                  murl = u, mlabel = l, malt = a\<rparr>] =
         [\<lparr>sx = x, sy = y, width = w, height = h, url = safeUrl u, label = l, alt = a\<rparr>]
       \<and> normalizeManualRectSlices lw lh bt bb
           (map toManual
             (normalizeManualRectSlices lw lh bt bb
               [Some \<lparr>rect = Some \<lparr>rx = real_of_int x, ry = real_of_int y,
                                     rwidth = real_of_int w, rheight = real_of_int h\<rparr>,
                      murl = u, mlabel = l, malt = a\<rparr>])) =
         normalizeManualRectSlices lw lh bt bb
           [Some \<lparr>rect = Some \<lparr>rx = real_of_int x, ry = real_of_int y,
                                 rwidth = real_of_int w, rheight = real_of_int h\<rparr>,
                  murl = u, mlabel = l, malt = a\<rparr>]"
proof -
  have once: "normalizeManualRectSlices lw lh bt bb
           [Some \<lparr>rect = Some \<lparr>rx = real_of_int x, ry = real_of_int y,
                                 rwidth = real_of_int w, rheight = real_of_int h\<rparr>,
                  murl = u, mlabel = l, malt = a\<rparr>] =
         [\<lparr>sx = x, sy = y, width = w, height = h, url = safeUrl u, label = l, alt = a\<rparr>]"
    using normalize_in_bounds [OF assms, of lh u l a "[]"] by simp
  have again: "normalizeManualRectSlices lw lh bt bb
           (map toManual [\<lparr>sx = x, sy = y, width = w, height = h, url = safeUrl u, label = l, alt = a\<rparr>]) =
         [\<lparr>sx = x, sy = y, width = w, height = h, url = safeUrl u, label = l, alt = a\<rparr>]"
    using normalize_in_bounds [OF assms, of lh "safeUrl u" l a "[]"]
    by (simp add: toManual_def safeUrl_idem)
  show ?thesis
    unfolding once again by simp
qed

theorem normalizeManualRectSlices_idempotent_witness:
  "normalizeManualRectSlices 500 1000 100 900
     [Some \<lparr>rect = Some \<lparr>rx = 0, ry = 100, rwidth = 50, rheight = 50\<rparr>,
            murl = ''ftp://x'', mlabel = ''hero'', malt = []\<rparr>] =
   [\<lparr>sx = 0, sy = 100, width = 50, height = 50, url = [], label = ''hero'', alt = []\<rparr>]
   \<and> normalizeManualRectSlices 500 1000 100 900
       (map toManual
         (normalizeManualRectSlices 500 1000 100 900
           [Some \<lparr>rect = Some \<lparr>rx = 0, ry = 100, rwidth = 50, rheight = 50\<rparr>,
                  murl = ''ftp://x'', mlabel = ''hero'', malt = []\<rparr>])) =
     normalizeManualRectSlices 500 1000 100 900
       [Some \<lparr>rect = Some \<lparr>rx = 0, ry = 100, rwidth = 50, rheight = 50\<rparr>,
              murl = ''ftp://x'', mlabel = ''hero'', malt = []\<rparr>]"
proof -
  have u: "safeUrl ''ftp://x'' = []"
    by (simp add: safeUrl_def startsWithNoCase_def char_eval)
  have h: "(0::int) \<le> 0" "(2::int) \<le> 50" "(0::int) + 50 \<le> 500" "(100::int) \<le> 100"
    "(100::int) + 50 \<le> 900"
    by simp_all
  note inst = normalizeManualRectSlices_idempotent
      [OF h(1) h(2) h(3) h(4) h(2) h(5), of 1000 "''ftp://x''" "''hero''" "[]"]
  show ?thesis
    using inst unfolding of_int_numeral of_int_0 u .
qed

text \<open>
  Claim C10. The normalizer skips every entry that is \<^verbatim>\<open>null\<close>,
  \<^verbatim>\<open>undefined\<close> or without a \<^verbatim>\<open>rect\<close>: the output is the output for the list
  without those entries. The choice of the slices fails exactly when manual entries were
  sent and the normalizer's output for them is empty, and then with the error of that case.
\<close>

theorem normalizeManualRectSlices_skips:
  "normalizeManualRectSlices lw lh bt bb xs =
     normalizeManualRectSlices lw lh bt bb (filter hasRect xs)
   \<and> ((\<exists>e. chooseSlices job = Inl e) =
        (manualSlices job \<noteq> [] \<and>
         normalizeManualRectSlices (logicalWidth job) (logicalHeight job) (bodyTopOf job)
           (bodyBottomOf job) (manualSlices job) = []))
   \<and> ((\<exists>e. chooseSlices job = Inl e) = (chooseSlices job = Inl noManualError))"
proof -
  have skip: "normalizeManualRectSlices lw lh bt bb xs =
      normalizeManualRectSlices lw lh bt bb (filter hasRect xs)"
  proof (induction xs)
    case Nil
    show ?case by simp
  next
    case (Cons s xs)
    show ?case
    proof (cases "hasRect s")
      case True
      then obtain m r where "s = Some m" and "rect m = Some r"
        by (auto simp: hasRect_def split: option.splits)
      then show ?thesis
        using Cons.IH by (simp add: hasRect_def Let_def)
    next
      case False
      then have "s = None \<or> (\<exists>m. s = Some m \<and> rect m = None)"
        by (auto simp: hasRect_def split: option.splits)
      then show ?thesis
        using Cons.IH False by auto
    qed
  qed
  have fails: "(\<exists>e. chooseSlices job = Inl e) =
        (manualSlices job \<noteq> [] \<and>
         normalizeManualRectSlices (logicalWidth job) (logicalHeight job) (bodyTopOf job)
           (bodyBottomOf job) (manualSlices job) = [])"
    by (simp add: chooseSlices_def Let_def)
  have which: "(\<exists>e. chooseSlices job = Inl e) = (chooseSlices job = Inl noManualError)"
    by (auto simp: chooseSlices_def Let_def)
  from skip fails which show ?thesis
    by (intro conjI)
qed

theorem normalizeManualRectSlices_skips_witness:
  "normalizeManualRectSlices 500 1000 100 900
     [None,
      Some \<lparr>rect = None, murl = '''', mlabel = '''', malt = ''''\<rparr>,
      Some \<lparr>rect = Some \<lparr>rx = - 10, ry = 50, rwidth = 50, rheight = 50\<rparr>,
            murl = '''', mlabel = '''', malt = ''''\<rparr>] =
   [\<lparr>sx = 0, sy = 100, width = 50, height = 50, url = '''', label = '''', alt = ''''\<rparr>]"
proof -
  have f: "filter hasRect
     [None,
      Some \<lparr>rect = None, murl = '''', mlabel = '''', malt = ''''\<rparr>,
      Some \<lparr>rect = Some \<lparr>rx = - 10, ry = 50, rwidth = 50, rheight = 50\<rparr>,
            murl = '''', mlabel = '''', malt = ''''\<rparr>] =
     [Some \<lparr>rect = Some \<lparr>rx = - 10, ry = 50, rwidth = 50, rheight = 50\<rparr>,
            murl = '''', mlabel = '''', malt = ''''\<rparr>]"
    by (simp add: hasRect_def)
  have u: "safeUrl [] = []"
    by (simp add: safeUrl_def)
  show ?thesis
    using normalizeManualRectSlices_skips [THEN conjunct1, of 500 1000 100 900
     "[None,
      Some \<lparr>rect = None, murl = '''', mlabel = '''', malt = ''''\<rparr>,
      Some \<lparr>rect = Some \<lparr>rx = - 10, ry = 50, rwidth = 50, rheight = 50\<rparr>,
            murl = '''', mlabel = '''', malt = ''''\<rparr>]"]
    unfolding f by (simp add: Let_def clamp_def round_js_def u)
qed

section \<open>The slice pipeline fails as a whole\<close>

text \<open>
  Claim C8. When the clamped header and footer bands leave no body region, the pipeline
  returns an error and the world is as it was: the result is decided by the image
  metadata alone (an unreadable image is reported first), so no slice is extracted,
  compressed or uploaded, whatever those services would do, and the result is never a
  batch, in particular never an empty one. The handler then answers with an error.
\<close>

theorem empty_body_is_error:
  assumes "bodyBottomOf job \<le> bodyTopOf job"
  shows "buildAndUploadSlices cfg svc job w =
           (case metadata svc (sourceBase64 job) of
              Inl e \<Rightarrow> (Inl e, w)
            | Inr (sw, sh) \<Rightarrow>
                (Inl (if sw = 0 \<or> sh = 0 then unreadableError else emptyBodyError), w))
       \<and> (\<exists>e. buildAndUploadSlices cfg svc job w = (Inl e, w))
       \<and> (metadata svc' = metadata svc \<longrightarrow>
            buildAndUploadSlices cfg svc' job w = buildAndUploadSlices cfg svc job w)
       \<and> (resolveApiKey env (req_accountId req) = Inr cred \<and> job = pushJob cred req \<longrightarrow>
            (\<exists>status msg. push cfg env svc req w = (JsonError status msg, w)))"
proof -
  have a: "buildAndUploadSlices cfg s job w =
           (case metadata s (sourceBase64 job) of
              Inl e \<Rightarrow> (Inl e, w)
            | Inr (sw, sh) \<Rightarrow>
                (Inl (if sw = 0 \<or> sh = 0 then unreadableError else emptyBodyError), w))" for s :: "'a services"
    using assms by (simp add: buildAndUploadSlices_def split: sum.splits prod.splits)
  have b: "\<exists>e. buildAndUploadSlices cfg svc job w = (Inl e, w)"
    unfolding a by (simp split: sum.splits prod.splits)
  have c: "metadata svc' = metadata svc \<longrightarrow>
            buildAndUploadSlices cfg svc' job w = buildAndUploadSlices cfg svc job w"
    unfolding a by simp
  have d: "resolveApiKey env (req_accountId req) = Inr cred \<and> job = pushJob cred req \<longrightarrow>
            (\<exists>status msg. push cfg env svc req w = (JsonError status msg, w))"
  proof (intro impI, elim conjE)
    assume r: "resolveApiKey env (req_accountId req) = Inr cred" and j: "job = pushJob cred req"
    from b obtain e where e: "buildAndUploadSlices cfg svc (pushJob cred req) w = (Inl e, w)"
      unfolding j by blast
    show "\<exists>status msg. push cfg env svc req w = (JsonError status msg, w)"
      by (simp add: push_def r e Let_def)
  qed
  from a [of svc] b c d show ?thesis
    by (intro conjI)
qed

theorem empty_body_is_error_witness:
  "bodyTopOf (demoJob\<lparr>headerHeight := 1500, footerHeight := 700\<rparr>) = 1500
   \<and> bodyBottomOf (demoJob\<lparr>headerHeight := 1500, footerHeight := 700\<rparr>) = 1300
   \<and> buildAndUploadSlices demoConfig demoServices
        (demoJob\<lparr>headerHeight := 1500, footerHeight := 700\<rparr>) 0 = (Inl emptyBodyError, 0)"
proof -
  let ?job = "demoJob\<lparr>headerHeight := 1500, footerHeight := 700\<rparr>"
  have t: "bodyTopOf ?job = 1500"
    by (simp add: bodyTopOf_def demoJob_def clamp_def round_js_def)
  have b: "bodyBottomOf ?job = 1300"
    by (simp add: bodyBottomOf_def demoJob_def clamp_def round_js_def)
  have h: "bodyBottomOf ?job \<le> bodyTopOf ?job"
    unfolding t b by simp
  have r: "buildAndUploadSlices demoConfig demoServices ?job 0 = (Inl emptyBodyError, 0)"
    using empty_body_is_error [OF h, of demoConfig demoServices 0, THEN conjunct1]
    by (simp add: demoServices_def)
  from t b r show ?thesis
    by (intro conjI)
qed

lemma sliceLoop_append:
  "sliceLoop cfg svc job sw sh i (pre @ rest) w =
     (case sliceLoop cfg svc job sw sh i pre w of
        (Inl e, wa) \<Rightarrow> (Inl e, wa)
      | (Inr d1, wa) \<Rightarrow>
         (case sliceLoop cfg svc job sw sh (i + length pre) rest wa of
            (Inl e, wb) \<Rightarrow> (Inl e, wb)
          | (Inr d2, wb) \<Rightarrow> (Inr (d1 @ d2), wb)))"
proof (induction pre arbitrary: i w)
  case Nil
  show ?case by (simp split: prod.splits sum.splits)
next
  case (Cons s pre)
  show ?case
    by (simp add: Cons.IH split: prod.splits sum.splits)
qed

lemma sliceStep_truncate:
  "sliceStep cfg svc job sw sh i s w = (Inr r, w') \<Longrightarrow> slice.truncate r = s"
  by (auto simp: sliceStep_def slice.defs split: sum.splits prod.splits)

lemma sliceLoop_complete:
  "sliceLoop cfg svc job sw sh i ss w = (Inr fin, w') \<Longrightarrow> map slice.truncate fin = ss"
proof (induction ss arbitrary: i w fin)
  case Nil
  then show ?case by simp
next
  case (Cons s ss)
  from Cons.prems obtain r wa d where
    s: "sliceStep cfg svc job sw sh i s w = (Inr r, wa)" and
    l: "sliceLoop cfg svc job sw sh (i + 1) ss wa = (Inr d, w')" and
    d: "fin = r # d"
    by (auto split: prod.splits sum.splits)
  show ?case
    using sliceStep_truncate [OF s] Cons.IH [OF l] d by simp
qed

text \<open>
  Claim C4. In the loop over the slices, when the slices before \<open>s\<close> succeed and the
  extraction, the compression or the upload of \<open>s\<close> throws, the loop ends with that
  error, whatever follows \<open>s\<close>; the pipeline then returns this error and the handler,
  for a request with its required fields and a resolved credential, answers with status
  500 and the message of that error (\<^verbatim>\<open>Error\<close> for an empty message), leaving the
  world as the failed step left it. A list of processed slices is returned
  only when every chosen slice was processed: stripped of the upload fields, the
  returned list is the list of chosen slices.
\<close>

theorem slice_failure_aborts_batch:
  "(extractRegion svc (sourceBase64 job) (clampExtractRect s (pixelRatio job) sw sh) = Inl e \<longrightarrow>
      sliceStep cfg svc job sw sh k s wa = (Inl e, wa))
   \<and> (extractRegion svc (sourceBase64 job) (clampExtractRect s (pixelRatio job) sw sh) = Inr (data, al)
        \<and> compressSlice cfg svc data al = Inl e \<longrightarrow>
      sliceStep cfg svc job sw sh k s wa = (Inl e, wa))
   \<and> (extractRegion svc (sourceBase64 job) (clampExtractRect s (pixelRatio job) sw sh) = Inr (data, al)
        \<and> compressSlice cfg svc data al = Inr c
        \<and> uploadImageToKlaviyo svc
             \<lparr>u_apiKey = jobApiKey job, u_name = batchName job @ ''-slice-'' @ digits (k + 1),
              u_image = buf c, u_mimeType = mime c\<rparr> wa = (Inl e, wb) \<longrightarrow>
      sliceStep cfg svc job sw sh k s wa = (Inl e, wb))
   \<and> (sliceLoop cfg svc job sw sh i pre w = (Inr fin, wa)
        \<and> sliceStep cfg svc job sw sh (i + length pre) s wa = (Inl e, wb) \<longrightarrow>
      sliceLoop cfg svc job sw sh i (pre @ s # post) w = (Inl e, wb))
   \<and> (metadata svc (sourceBase64 job) = Inr (sw, sh) \<and> sw \<noteq> 0 \<and> sh \<noteq> 0
        \<and> bodyTopOf job < bodyBottomOf job \<and> chooseSlices job = Inr chosen
        \<and> sliceLoop cfg svc job sw sh 0 chosen w = (Inl e, wb) \<longrightarrow>
      buildAndUploadSlices cfg svc job w = (Inl e, wb))
   \<and> (resolveApiKey env (req_accountId req) = Inr cred
        \<and> req_imageBase64 req \<noteq> [] \<and> req_logicalWidth req \<noteq> 0 \<and> req_logicalHeight req \<noteq> 0
        \<and> buildAndUploadSlices cfg svc (pushJob cred req) w = (Inl e, wb) \<longrightarrow>
      push cfg env svc req w = (JsonError 500 (if e = [] then ''Error'' else e), wb))
   \<and> (sliceLoop cfg svc job sw sh i chosen w = (Inr fin, wb) \<longrightarrow>
      map slice.truncate fin = chosen)
   \<and> (push cfg env svc req w = (JsonOk acct name frame n manual target results, wb) \<longrightarrow>
      (\<exists>cred. resolveApiKey env (req_accountId req) = Inr cred
         \<and> chooseSlices (pushJob cred req) = Inr (map slice.truncate results)))"
proof -
  have c1: "extractRegion svc (sourceBase64 job) (clampExtractRect s (pixelRatio job) sw sh) = Inl e \<longrightarrow>
      sliceStep cfg svc job sw sh k s wa = (Inl e, wa)"
    by (simp add: sliceStep_def)
  have c2: "extractRegion svc (sourceBase64 job) (clampExtractRect s (pixelRatio job) sw sh) = Inr (data, al)
        \<and> compressSlice cfg svc data al = Inl e \<longrightarrow>
      sliceStep cfg svc job sw sh k s wa = (Inl e, wa)"
    by (simp add: sliceStep_def)
  have c3: "extractRegion svc (sourceBase64 job) (clampExtractRect s (pixelRatio job) sw sh) = Inr (data, al)
        \<and> compressSlice cfg svc data al = Inr c
        \<and> uploadImageToKlaviyo svc
             \<lparr>u_apiKey = jobApiKey job, u_name = batchName job @ ''-slice-'' @ digits (k + 1),
              u_image = buf c, u_mimeType = mime c\<rparr> wa = (Inl e, wb) \<longrightarrow>
      sliceStep cfg svc job sw sh k s wa = (Inl e, wb)"
    by (simp add: sliceStep_def del: digits.simps)
  have c4: "sliceLoop cfg svc job sw sh i pre w = (Inr fin, wa)
        \<and> sliceStep cfg svc job sw sh (i + length pre) s wa = (Inl e, wb) \<longrightarrow>
      sliceLoop cfg svc job sw sh i (pre @ s # post) w = (Inl e, wb)"
    by (simp add: sliceLoop_append)
  have c5: "metadata svc (sourceBase64 job) = Inr (sw, sh) \<and> sw \<noteq> 0 \<and> sh \<noteq> 0
        \<and> bodyTopOf job < bodyBottomOf job \<and> chooseSlices job = Inr chosen
        \<and> sliceLoop cfg svc job sw sh 0 chosen w = (Inl e, wb) \<longrightarrow>
      buildAndUploadSlices cfg svc job w = (Inl e, wb)"
    by (simp add: buildAndUploadSlices_def)
  have bn: "batchName (pushJob cred req) \<noteq> []"
    by (simp add: pushJob_def firstTruthy_def)
  have c6: "resolveApiKey env (req_accountId req) = Inr cred
        \<and> req_imageBase64 req \<noteq> [] \<and> req_logicalWidth req \<noteq> 0 \<and> req_logicalHeight req \<noteq> 0
        \<and> buildAndUploadSlices cfg svc (pushJob cred req) w = (Inl e, wb) \<longrightarrow>
      push cfg env svc req w = (JsonError 500 (if e = [] then ''Error'' else e), wb)"
    using bn by (simp add: push_def Let_def errorText_def)
  have c7: "sliceLoop cfg svc job sw sh i chosen w = (Inr fin, wb) \<longrightarrow>
      map slice.truncate fin = chosen"
    by (rule impI) (rule sliceLoop_complete)
  have c8: "push cfg env svc req w = (JsonOk acct name frame n manual target results, wb) \<longrightarrow>
      (\<exists>cred. resolveApiKey env (req_accountId req) = Inr cred
         \<and> chooseSlices (pushJob cred req) = Inr (map slice.truncate results))"
  proof
    assume p: "push cfg env svc req w = (JsonOk acct name frame n manual target results, wb)"
    then obtain cred where r: "resolveApiKey env (req_accountId req) = Inr cred"
      by (auto simp: push_def split: sum.splits)
    from p r obtain b where b: "buildAndUploadSlices cfg svc (pushJob cred req) w = (Inr b, wb)"
      and rs: "results = slices b"
      by (auto simp: push_def Let_def split: if_splits sum.splits prod.splits)
    from b obtain mw mh chosen where
      ch: "chooseSlices (pushJob cred req) = Inr chosen" and
      lp: "sliceLoop cfg svc (pushJob cred req) mw mh 0 chosen w = (Inr (slices b), wb)"
      by (auto simp: buildAndUploadSlices_def split: if_splits sum.splits prod.splits)
    from sliceLoop_complete [OF lp] ch rs r
    show "\<exists>cred. resolveApiKey env (req_accountId req) = Inr cred
         \<and> chooseSlices (pushJob cred req) = Inr (map slice.truncate results)"
      by auto
  qed
  show ?thesis
    by (rule conjI c1 c2 c3 c4 c5 c6 c7 c8)+
qed

theorem slice_failure_aborts_batch_witness:
  "sliceLoop demoConfig demoServices demoJob 2000 4000 0
     [demoSlice 100 1200, demoSlice 1300 600] 0 = (Inl ''Image upload failed: HTTP 500'', 2)
   \<and> chooseSlices demoJob = Inr [demoSlice 100 1200, demoSlice 1300 600]
   \<and> buildAndUploadSlices demoConfig demoServices demoJob 0 =
        (Inl ''Image upload failed: HTTP 500'', 2)
   \<and> push demoConfig [''KLAVIYO_API_KEY'' \<mapsto> ''pk_1''] demoServices demoRequest 0 =
        (JsonError 500 ''Image upload failed: HTTP 500'', 2)"
proof -
  let ?r1 = "slice.extend (demoSlice 100 1200)
      \<lparr>imageUrl = ''https://img.example/1'', mimeType = ''image/png'', jpegQuality = None,
       originalKb = 0, compressedKb = 0\<rparr>"
  have s1: "sliceStep demoConfig demoServices demoJob 2000 4000 0 (demoSlice 100 1200) 0 = (Inr ?r1, 1)"
    by (simp add: sliceStep_def compressSlice_def compressCounted_def demoServices_def demoJob_def
          bytesToKb_def round_js_def char_of_def bit_Suc_0_iff)
  have l1: "sliceLoop demoConfig demoServices demoJob 2000 4000 0 [demoSlice 100 1200] 0 = (Inr [?r1], 1)"
    by (simp add: s1)
  have s2: "sliceStep demoConfig demoServices demoJob 2000 4000 (0 + length [demoSlice 100 1200])
              (demoSlice 1300 600) 1 = (Inl ''Image upload failed: HTTP 500'', 2)"
    by (simp add: sliceStep_def compressSlice_def compressCounted_def demoServices_def demoJob_def
          bytesToKb_def round_js_def char_of_def bit_Suc_0_iff)
  note inst = slice_failure_aborts_batch
      [where svc = demoServices and job = demoJob and sw = 2000 and sh = 4000
         and cfg = demoConfig and i = 0 and pre = "[demoSlice 100 1200]" and w = 0
         and fin = "[?r1]" and s = "demoSlice 1300 600" and wa = 1
         and e = "''Image upload failed: HTTP 500''" and wb = 2 and post = "[]"
         and chosen = "[demoSlice 100 1200, demoSlice 1300 600]"
         and env = "[''KLAVIYO_API_KEY'' \<mapsto> ''pk_1'']" and req = demoRequest
         and cred = "\<lparr>accountId = ''default'', apiKey = ''pk_1'', source = ''KLAVIYO_API_KEY''\<rparr>"]
  have a: "sliceLoop demoConfig demoServices demoJob 2000 4000 0
     [demoSlice 100 1200, demoSlice 1300 600] 0 = (Inl ''Image upload failed: HTTP 500'', 2)"
    using inst [THEN conjunct2, THEN conjunct2, THEN conjunct2, THEN conjunct1] l1 s2
    by simp
  have t: "bodyTopOf demoJob = 100" and b: "bodyBottomOf demoJob = 1900"
    by (simp_all add: bodyTopOf_def bodyBottomOf_def demoJob_def clamp_def round_js_def)
  have ch: "chooseSlices demoJob = Inr [demoSlice 100 1200, demoSlice 1300 600]"
    unfolding chooseSlices_def t b
    by (simp add: demoJob_def buildAutoVerticalSlices_def safeMaxOf_def round_js_def demoSlice_def
          autoLoop.simps)
  have m: "metadata demoServices (sourceBase64 demoJob) = Inr (2000, 4000)"
    by (simp add: demoServices_def)
  have c: "buildAndUploadSlices demoConfig demoServices demoJob 0 =
        (Inl ''Image upload failed: HTTP 500'', 2)"
    using inst [THEN conjunct2, THEN conjunct2, THEN conjunct2, THEN conjunct2, THEN conjunct1]
      m t b ch a
    by simp
  have n: "normalizeAccountId [] = []"
    by (simp add: normalizeAccountId_filter)
  have r: "resolveApiKey [''KLAVIYO_API_KEY'' \<mapsto> ''pk_1''] (req_accountId demoRequest) =
      Inr \<lparr>accountId = ''default'', apiKey = ''pk_1'', source = ''KLAVIYO_API_KEY''\<rparr>"
    by (simp add: demoRequest_def resolveApiKey_def n truthy_def)
  have j: "pushJob \<lparr>accountId = ''default'', apiKey = ''pk_1'', source = ''KLAVIYO_API_KEY''\<rparr>
      demoRequest = demoJob"
    by (simp add: pushJob_def demoRequest_def demoJob_def firstTruthy_def)
  have f: "req_imageBase64 demoRequest \<noteq> [] \<and> req_logicalWidth demoRequest \<noteq> 0
      \<and> req_logicalHeight demoRequest \<noteq> 0"
    by (simp add: demoRequest_def)
  have p: "push demoConfig [''KLAVIYO_API_KEY'' \<mapsto> ''pk_1''] demoServices demoRequest 0 =
        (JsonError 500 ''Image upload failed: HTTP 500'', 2)"
    using inst [THEN conjunct2, THEN conjunct2, THEN conjunct2, THEN conjunct2, THEN conjunct2,
        THEN conjunct1] r f c
    unfolding j by simp
  from a ch c p show ?thesis
    by (intro conjI)
qed

end
